theory Spec2Isabelle
  imports Main "HOL-Library.Sublist" "HOL-Library.Char_ord" "HOL-Library.List_Lexorder"
begin

section \<open>Strings and characters\<close>

text \<open>
  Python strings are modelled by HOL strings (lists of 8-bit characters), so a document
  is a sequence of code points below 256.  The three characters that the scripts treat
  specially get names, because they cannot be written inside a HOL string literal.
\<close>

abbreviation BSL :: char where "BSL \<equiv> CHR 0x5C"
abbreviation DQ :: char where "DQ \<equiv> CHR 0x22"
abbreviation NL :: char where "NL \<equiv> CHR 0x0A"

text \<open>
  \<^verbatim>\<open>str.replace(old, new)\<close>: the occurrences of \<open>old\<close> are found from left to right
  and do not overlap.  \<open>replace_from\<close> is the scan for a non-empty \<open>old\<close>, given as its
  first character and the rest; for the empty \<open>old\<close> Python puts \<open>new\<close> before every
  character and at the end.
\<close>

fun replace_from :: "char \<Rightarrow> string \<Rightarrow> string \<Rightarrow> string \<Rightarrow> string" where
  "replace_from a as new [] = []"
| "replace_from a as new (c # cs) =
     (if c = a \<and> prefix as cs then new @ replace_from a as new (drop (length as) cs)
      else c # replace_from a as new cs)"

definition str_replace :: "string \<Rightarrow> string \<Rightarrow> string \<Rightarrow> string" where
  "str_replace old new s =
     (case old of
        [] \<Rightarrow> new @ concat (map (\<lambda>c. c # new) s)
      | a # as \<Rightarrow> replace_from a as new s)"

text \<open>\<^verbatim>\<open>sub in s\<close> for strings.\<close>

fun contains :: "string \<Rightarrow> string \<Rightarrow> bool" where
  "contains sub [] = (sub = [])"
| "contains sub (c # cs) = (prefix sub (c # cs) \<or> contains sub cs)"

section \<open>The record codec of update_version_announcement.py\<close>

text \<open>\<^verbatim>\<open>escape_rust_string\<close>: a backslash is doubled, a double quote gets a backslash.\<close>

fun escape_char :: "char \<Rightarrow> string" where
  "escape_char c = (if c = BSL then [BSL, BSL] else if c = DQ then [BSL, DQ] else [c])"

definition escape_rust_string :: "string \<Rightarrow> string" where
  "escape_rust_string s = concat (map escape_char s)"

text \<open>
  The content field is not passed through \<open>escape_rust_string\<close>; line 204 of the script is
  \<^verbatim>\<open>ann["content"].replace("\n", "\\\\n").replace('"', '\\"')\<close>: a newline becomes the
  three characters backslash, backslash, n; a quote becomes backslash, quote; a backslash
  is left as it is.
\<close>

definition format_content :: "string \<Rightarrow> string" where
  "format_content c = str_replace [DQ] [BSL, DQ] (str_replace [NL] [BSL, BSL, CHR ''n''] c)"

text \<open>
  \<^verbatim>\<open>unescape\<close>, the local function of \<open>parse_announcements\<close>: the index loop becomes a
  recursion on the rest of the string.
\<close>

fun unescape :: "string \<Rightarrow> string" where
  "unescape [] = []"
| "unescape [c] = [c]"
| "unescape (c # d # rest) =
     (if c = BSL then
        (if d = CHR ''n'' then NL # unescape rest
         else if d = BSL then BSL # unescape rest
         else if d = DQ then DQ # unescape rest
         else c # unescape (d # rest))
      else c # unescape (d # rest))"

section \<open>Announcements and the upsert\<close>

record announcement =
  version :: string
  title :: string
  content :: string

text \<open>
  The two messages that \<open>update_announcement\<close> prints: the only way the script reports
  whether the version was found.
\<close>

datatype event = Updating_existing string | Adding_new string

fun was_update :: "event \<Rightarrow> bool" where
  "was_update (Updating_existing v) = True"
| "was_update (Adding_new v) = False"

text \<open>The loop with \<^verbatim>\<open>break\<close> that looks for the first announcement of the version.\<close>

fun find_existing :: "announcement list \<Rightarrow> string \<Rightarrow> nat option" where
  "find_existing [] v = None"
| "find_existing (ann # anns) v =
     (if version ann = v then Some 0 else map_option Suc (find_existing anns v))"

definition upsert ::
  "announcement list \<Rightarrow> string \<Rightarrow> string \<Rightarrow> string \<Rightarrow> announcement list \<times> event" where
  "upsert announcements v t c =
     (case find_existing announcements v of
        Some existing_idx \<Rightarrow>
          (announcements[existing_idx :=
             (announcements ! existing_idx)\<lparr>title := t, content := c\<rparr>],
           Updating_existing v)
      | None \<Rightarrow>
          (announcements @ [\<lparr>version = v, title = t, content = c\<rparr>], Adding_new v))"

section \<open>Regular expressions of Python's re module\<close>

text \<open>
  The script uses three patterns.  They are built from single characters, the classes
  \<^verbatim>\<open>[^c]\<close>, \<^verbatim>\<open>\s\<close> and (under DOTALL) \<^verbatim>\<open>.\<close>, the greedy \<^verbatim>\<open>*\<close> and \<^verbatim>\<open>+\<close> and the lazy
  \<^verbatim>\<open>*?\<close> on such a class, and capture groups that are neither nested nor repeated.
  \<open>rx_match\<close> is the backtracking matcher of \<^verbatim>\<open>re\<close> for this fragment: it lists the ways
  the pattern matches at the start of the input in the order in which \<^verbatim>\<open>re\<close> tries them,
  each with the captured groups and the input left over.  The match \<^verbatim>\<open>re\<close> reports is the
  first of the list.
\<close>

datatype atom = Ch char | NotCh char | Space | AnyCh

datatype piece = One atom | Star atom | Plus atom | Lazy atom | Open | Close

text \<open>\<^verbatim>\<open>\s\<close> on a str pattern is \<^verbatim>\<open>str.isspace\<close>; these are its code points below 256.\<close>

definition is_space :: "char \<Rightarrow> bool" where
  "is_space c = ((of_char c :: nat) \<in> {9, 10, 11, 12, 13, 28, 29, 30, 31, 32, 133, 160})"

fun atom_ok :: "atom \<Rightarrow> char \<Rightarrow> bool" where
  "atom_ok (Ch a) c = (c = a)"
| "atom_ok (NotCh a) c = (c \<noteq> a)"
| "atom_ok Space c = is_space c"
| "atom_ok AnyCh c = True"

text \<open>
  The capture state: the groups closed so far, and the text of the group that is open.
\<close>

type_synonym capstate = "string list \<times> string option"

fun push :: "char \<Rightarrow> capstate \<Rightarrow> capstate" where
  "push c (caps, cur) = (caps, map_option (\<lambda>w. w @ [c]) cur)"

fun rx_match :: "piece list \<Rightarrow> capstate \<Rightarrow> string \<Rightarrow> (string list \<times> string) list" where
  "rx_match [] (caps, cur) s = [(caps, s)]"
| "rx_match (Open # ps) (caps, cur) s = rx_match ps (caps, Some []) s"
| "rx_match (Close # ps) (caps, cur) s =
     rx_match ps (caps @ [case cur of Some w \<Rightarrow> w | None \<Rightarrow> []], None) s"
| "rx_match (One a # ps) st [] = []"
| "rx_match (One a # ps) st (c # cs) = (if atom_ok a c then rx_match ps (push c st) cs else [])"
| "rx_match (Star a # ps) st [] = rx_match ps st []"
| "rx_match (Star a # ps) st (c # cs) =
     (if atom_ok a c then rx_match (Star a # ps) (push c st) cs else []) @ rx_match ps st (c # cs)"
| "rx_match (Plus a # ps) st [] = []"
| "rx_match (Plus a # ps) st (c # cs) =
     (if atom_ok a c then rx_match (Star a # ps) (push c st) cs else [])"
| "rx_match (Lazy a # ps) st [] = rx_match ps st []"
| "rx_match (Lazy a # ps) st (c # cs) =
     rx_match ps st (c # cs) @ (if atom_ok a c then rx_match (Lazy a # ps) (push c st) cs else [])"

text \<open>
  \<^verbatim>\<open>re.search\<close>: the leftmost position at which the pattern matches.  The result is the
  text before the match, the groups as \<^verbatim>\<open>match.group(i)\<close> numbers them (group 0 is the
  whole match) and the text after the match.
\<close>

definition match_here :: "piece list \<Rightarrow> string \<Rightarrow> (string list \<times> string) option" where
  "match_here ps s =
     (case rx_match ps ([], None) s of
        [] \<Rightarrow> None
      | (caps, rest) # _ \<Rightarrow> Some (take (length s - length rest) s # caps, rest))"

fun re_search :: "piece list \<Rightarrow> string \<Rightarrow> (string \<times> string list \<times> string) option" where
  "re_search ps [] =
     (case match_here ps [] of None \<Rightarrow> None | Some (groups, rest) \<Rightarrow> Some ([], groups, rest))"
| "re_search ps (c # cs) =
     (case match_here ps (c # cs) of
        Some (groups, rest) \<Rightarrow> Some ([], groups, rest)
      | None \<Rightarrow>
          (case re_search ps cs of
             None \<Rightarrow> None
           | Some (lead, groups, rest) \<Rightarrow> Some (c # lead, groups, rest)))"

text \<open>
  \<^verbatim>\<open>re.finditer\<close>: the matches from left to right, each search starting where the match
  before it ended.  No pattern of the script matches the empty string (lemmas
  \<open>array_match_shorter\<close> and \<open>ann_match_shorter\<close> below), so the test on the lengths, which
  makes the recursion well-founded, always succeeds here.
\<close>

fun re_finditer :: "piece list \<Rightarrow> string \<Rightarrow> string list list" where
  "re_finditer ps s =
     (case re_search ps s of
        None \<Rightarrow> []
      | Some (lead, groups, rest) \<Rightarrow>
          groups # (if length rest < length s then re_finditer ps rest else []))"

text \<open>The literal part of a pattern.\<close>

definition lit :: "string \<Rightarrow> piece list" where
  "lit s = map (\<lambda>c. One (Ch c)) s"

definition MARKER :: string where
  "MARKER = ''pub const VERSION_ANNOUNCEMENTS: &[VersionAnnouncement] = &[''"

definition CLOSER :: string where
  "CLOSER = ''];''"

text \<open>
  The pattern of \<open>parse_announcements\<close>,
  \<^verbatim>\<open>pub const VERSION_ANNOUNCEMENTS: &\[VersionAnnouncement\] = &\[(.*?)\];\<close>
\<close>

definition array_pattern :: "piece list" where
  "array_pattern = lit MARKER @ [Open, Lazy AnyCh, Close] @ lit CLOSER"

text \<open>
  The pattern of the substitution in \<open>update_announcement\<close>, the same text in three groups:
  \<^verbatim>\<open>(pub const VERSION_ANNOUNCEMENTS: &\[VersionAnnouncement\] = &\[)(.*?)(\];)\<close>
\<close>

definition sub_pattern :: "piece list" where
  "sub_pattern =
     [Open] @ lit MARKER @ [Close] @ [Open, Lazy AnyCh, Close] @ [Open] @ lit CLOSER @ [Close]"

text \<open>
  The pattern of one announcement block:
  \<^verbatim>\<open>VersionAnnouncement\s*\{[^}]*version:\s*"([^"]+)"[^}]*title:\s*"([^"]+)"[^}]*content:\s*"([^"]+)"[^}]*\}\<close>
\<close>

definition field_pattern :: "string \<Rightarrow> piece list" where
  "field_pattern name =
     [Star (NotCh (CHR ''}''))] @ lit name @ [Star Space] @ lit [DQ] @
     [Open, Plus (NotCh DQ), Close] @ lit [DQ]"

definition ann_pattern :: "piece list" where
  "ann_pattern =
     lit ''VersionAnnouncement'' @ [Star Space] @ lit ''{'' @
     field_pattern ''version:'' @ field_pattern ''title:'' @ field_pattern ''content:'' @
     [Star (NotCh (CHR ''}''))] @ lit ''}''"

section \<open>Replacement templates of re.sub\<close>

text \<open>
  What the script can raise: the \<^verbatim>\<open>ValueError\<close> of \<open>parse_announcements\<close> with its
  message, and from \<^verbatim>\<open>re.sub\<close> the \<^verbatim>\<open>re.error\<close> of a malformed template and the
  \<^verbatim>\<open>IndexError\<close> of an unknown group name.
\<close>

datatype error = ValueError string | ReError | IndexError

text \<open>
  \<^verbatim>\<open>re.sub\<close> reads its replacement string as a template (\<^verbatim>\<open>parse_template\<close> of the
  \<^verbatim>\<open>re\<close> module): a backslash starts a group reference, an octal escape or one of the
  character escapes; a backslash before another ASCII letter or at the very end is an
  error; a backslash before anything else stays, with the character after it.
\<close>

datatype titem = TLit char | TGroup nat

definition is_digit :: "char \<Rightarrow> bool" where
  "is_digit c = (CHR ''0'' \<le> c \<and> c \<le> CHR ''9'')"

definition is_octdigit :: "char \<Rightarrow> bool" where
  "is_octdigit c = (CHR ''0'' \<le> c \<and> c \<le> CHR ''7'')"

definition digit_val :: "char \<Rightarrow> nat" where
  "digit_val c = of_char c - 48"

definition is_ascii_letter :: "char \<Rightarrow> bool" where
  "is_ascii_letter c = ((CHR ''a'' \<le> c \<and> c \<le> CHR ''z'') \<or> (CHR ''A'' \<le> c \<and> c \<le> CHR ''Z''))"

text \<open>\<^verbatim>\<open>str.isidentifier\<close> on code points below 256.\<close>

definition is_id_start :: "char \<Rightarrow> bool" where
  "is_id_start c =
     (is_ascii_letter c \<or> c = CHR ''_'' \<or>
      (let n = (of_char c :: nat) in
         n = 170 \<or> n = 181 \<or> n = 186 \<or> (192 \<le> n \<and> n \<le> 214) \<or> (216 \<le> n \<and> n \<le> 246) \<or> 248 \<le> n))"

definition is_id_continue :: "char \<Rightarrow> bool" where
  "is_id_continue c = (is_id_start c \<or> is_digit c \<or> (of_char c :: nat) = 183)"

definition is_identifier :: "string \<Rightarrow> bool" where
  "is_identifier name =
     (case name of [] \<Rightarrow> False | c # cs \<Rightarrow> is_id_start c \<and> list_all is_id_continue cs)"

definition decimal_val :: "string \<Rightarrow> nat" where
  "decimal_val ds = foldl (\<lambda>n d. 10 * n + digit_val d) 0 ds"

text \<open>The table \<^verbatim>\<open>ESCAPES\<close> of the module.\<close>

definition char_escape :: "char \<Rightarrow> char option" where
  "char_escape c =
     (if c = CHR ''a'' then Some (CHR 0x07)
      else if c = CHR ''b'' then Some (CHR 0x08)
      else if c = CHR ''f'' then Some (CHR 0x0C)
      else if c = CHR ''n'' then Some NL
      else if c = CHR ''r'' then Some (CHR 0x0D)
      else if c = CHR ''t'' then Some (CHR 0x09)
      else if c = CHR ''v'' then Some (CHR 0x0B)
      else if c = BSL then Some BSL
      else None)"

definition then_items :: "titem list \<Rightarrow> error + titem list \<Rightarrow> error + titem list" where
  "then_items xs r = (case r of Inl e \<Rightarrow> Inl e | Inr ys \<Rightarrow> Inr (xs @ ys))"

definition add_group :: "nat \<Rightarrow> nat \<Rightarrow> error + titem list \<Rightarrow> error + titem list" where
  "add_group ngroups index r = (if index > ngroups then Inl ReError else then_items [TGroup index] r)"

text \<open>
  \<open>parse_template ngroups\<close> for a pattern with \<open>ngroups\<close> groups, none of them named.  The
  first error from the left is the one raised.  The name of \<^verbatim>\<open>\g<name>\<close> goes up to the
  next \<^verbatim>\<open>>\<close>; it must be an ASCII decimal number (Python 3.12), an identifier names no
  group of these patterns.  The tokenizer reads one token ahead, so a lone backslash right
  after the \<^verbatim>\<open>>\<close> is reported before the name is looked at.
\<close>

function parse_template :: "nat \<Rightarrow> string \<Rightarrow> error + titem list" where
  "parse_template ngroups [] = Inr []"
| "parse_template ngroups [c] = (if c = BSL then Inl ReError else Inr [TLit c])"
| "parse_template ngroups (c # d # rest) =
     (if c \<noteq> BSL then then_items [TLit c] (parse_template ngroups (d # rest))
      else if d = CHR ''g'' then
        (case rest of
           [] \<Rightarrow> Inl ReError
         | lt # after \<Rightarrow>
             if lt \<noteq> CHR ''<'' then Inl ReError
             else
               (let name = takeWhile (\<lambda>x. x \<noteq> CHR ''>'') after;
                    tail = dropWhile (\<lambda>x. x \<noteq> CHR ''>'') after
                in if tail = [] \<or> name = [] \<or> BSL \<in> set name \<or> tl tail = [BSL] then Inl ReError
                   else if is_identifier name then Inl IndexError
                   else if \<not> list_all is_digit name then Inl ReError
                   else add_group ngroups (decimal_val name) (parse_template ngroups (tl tail))))
      else if d = CHR ''0'' then
        (case rest of
           [] \<Rightarrow> Inr [TLit (CHR 0x00)]
         | e # rest1 \<Rightarrow>
             if is_octdigit e then
               (case rest1 of
                  [] \<Rightarrow> Inr [TLit (char_of (digit_val e))]
                | f # rest2 \<Rightarrow>
                    if is_octdigit f
                    then then_items [TLit (char_of (8 * digit_val e + digit_val f))]
                           (parse_template ngroups rest2)
                    else then_items [TLit (char_of (digit_val e))]
                           (parse_template ngroups (f # rest2)))
             else then_items [TLit (CHR 0x00)] (parse_template ngroups (e # rest1)))
      else if is_digit d then
        (case rest of
           [] \<Rightarrow> add_group ngroups (digit_val d) (Inr [])
         | e # rest1 \<Rightarrow>
             if is_digit e then
               (case rest1 of
                  [] \<Rightarrow> add_group ngroups (10 * digit_val d + digit_val e) (Inr [])
                | f # rest2 \<Rightarrow>
                    if is_octdigit d \<and> is_octdigit e \<and> is_octdigit f then
                      (if 64 * digit_val d + 8 * digit_val e + digit_val f > 255 then Inl ReError
                       else then_items
                              [TLit (char_of (64 * digit_val d + 8 * digit_val e + digit_val f))]
                              (parse_template ngroups rest2))
                    else add_group ngroups (10 * digit_val d + digit_val e)
                           (parse_template ngroups (f # rest2)))
             else add_group ngroups (digit_val d) (parse_template ngroups (e # rest1)))
      else
        (case char_escape d of
           Some x \<Rightarrow> then_items [TLit x] (parse_template ngroups rest)
         | None \<Rightarrow>
             if is_ascii_letter d then Inl ReError
             else then_items [TLit BSL, TLit d] (parse_template ngroups rest)))"
  by pat_completeness auto
termination
proof (relation "measure (\<lambda>(n, s). length s)")
  fix ngroups :: nat and c d :: char and rest :: string and lt :: char and after name tail :: string
  assume "tail = dropWhile (\<lambda>x. x \<noteq> CHR ''>'') after" and "rest = lt # after"
  moreover have "length (dropWhile (\<lambda>x. x \<noteq> CHR ''>'') after) \<le> length after"
    by (rule length_dropWhile_le)
  ultimately show "((ngroups, tl tail), ngroups, c # d # rest) \<in> measure (\<lambda>(n, s). length s)"
    by simp
qed simp_all

text \<open>The text a template gives for one match, whose groups are numbered from 0.\<close>

fun expand_item :: "string list \<Rightarrow> titem \<Rightarrow> string" where
  "expand_item groups (TLit c) = [c]"
| "expand_item groups (TGroup i) = groups ! i"

definition expand :: "titem list \<Rightarrow> string list \<Rightarrow> string" where
  "expand items groups = concat (map (expand_item groups) items)"

definition ngroups :: "piece list \<Rightarrow> nat" where
  "ngroups ps = length (filter (\<lambda>p. p = Open) ps)"

text \<open>
  \<^verbatim>\<open>re.sub(pattern, repl, string)\<close> with a string \<open>repl\<close>: every match, from left to right
  as \<^verbatim>\<open>finditer\<close> finds them, is replaced by the expansion of the template.
\<close>

fun sub_all :: "piece list \<Rightarrow> titem list \<Rightarrow> string \<Rightarrow> string" where
  "sub_all ps items s =
     (case re_search ps s of
        None \<Rightarrow> s
      | Some (lead, groups, rest) \<Rightarrow>
          lead @ expand items groups @
          (if length rest < length s then sub_all ps items rest else rest))"

definition re_sub :: "piece list \<Rightarrow> string \<Rightarrow> string \<Rightarrow> error + string" where
  "re_sub ps repl s =
     (case parse_template (ngroups ps) repl of
        Inl e \<Rightarrow> Inl e
      | Inr items \<Rightarrow> Inr (sub_all ps items s))"

section \<open>parse_announcements and update_announcement\<close>

definition NOT_FOUND :: string where
  "NOT_FOUND = ''Could not find VERSION_ANNOUNCEMENTS array in file''"

definition count_newlines :: "string \<Rightarrow> nat" where
  "count_newlines s = length (filter (\<lambda>c. c = NL) s)"

text \<open>
  One match of \<open>ann_pattern\<close> as a dictionary.  Its entry \<^verbatim>\<open>"match"\<close> is never read again
  and is left out.
\<close>

definition announcement_of :: "string list \<Rightarrow> announcement" where
  "announcement_of groups =
     \<lparr>version = unescape (groups ! 1), title = unescape (groups ! 2),
      content = unescape (groups ! 3)\<rparr>"

definition parse_announcements :: "string \<Rightarrow> error + (announcement list \<times> nat \<times> nat)" where
  "parse_announcements text =
     (case re_search array_pattern text of
        None \<Rightarrow> Inl (ValueError NOT_FOUND)
      | Some (lead, groups, rest) \<Rightarrow>
          (let array_content = groups ! 1;
               start_line = count_newlines lead + 1;
               end_line = count_newlines (take (length text - length rest) text) + 1
           in Inr (map announcement_of (re_finditer ann_pattern array_content),
                   start_line, end_line)))"

text \<open>\<^verbatim>\<open>sep.join(lines)\<close>\<close>

fun join :: "string \<Rightarrow> string list \<Rightarrow> string" where
  "join sep [] = []"
| "join sep [x] = x"
| "join sep (x # y # ys) = x @ sep @ join sep (y # ys)"

definition HEADER :: string where
  "HEADER = ''    // Add version-specific announcements here''"

text \<open>The five lines that the loop of \<open>update_announcement\<close> appends for one announcement.\<close>

definition ann_lines :: "announcement \<Rightarrow> string list" where
  "ann_lines ann =
     [''    VersionAnnouncement {'',
      ''        version: '' @ [DQ] @ escape_rust_string (version ann) @ [DQ] @ '','',
      ''        title: '' @ [DQ] @ escape_rust_string (title ann) @ [DQ] @ '','',
      ''        content: '' @ [DQ] @ format_content (content ann) @ [DQ] @ '','',
      ''    },'']"

definition array_lines :: "announcement list \<Rightarrow> string list" where
  "array_lines announcements = HEADER # concat (map ann_lines announcements)"

text \<open>\<^verbatim>\<open>r'\1\n' + "\n".join(array_lines) + "\n" + r'\3'\<close>\<close>

definition replacement :: "string list \<Rightarrow> string" where
  "replacement lines = [BSL, CHR ''1'', BSL, CHR ''n''] @ join [NL] lines @ [NL] @ [BSL, CHR ''3'']"

text \<open>
  \<open>update_announcement\<close> returns what it printed together with the new text of the file or
  the exception.  The message is printed before \<^verbatim>\<open>re.sub\<close> runs, hence also when the
  substitution raises.
\<close>

definition update_announcement ::
  "string \<Rightarrow> string \<Rightarrow> string \<Rightarrow> string \<Rightarrow> event list \<times> (error + string)" where
  "update_announcement text v t announcement_content =
     (case parse_announcements text of
        Inl e \<Rightarrow> ([], Inl e)
      | Inr (announcements, start_line, end_line) \<Rightarrow>
          (case upsert announcements v t announcement_content of
             (announcements', ev) \<Rightarrow>
               ([ev], re_sub sub_pattern (replacement (array_lines announcements')) text)))"

section \<open>The command line with three arguments\<close>

text \<open>
  The files that \<^verbatim>\<open>os.path.isfile\<close> accepts, with their text.  The third argument is the
  content itself unless it names a file.
\<close>

type_synonym files = "string \<rightharpoonup> string"

definition cli_content :: "files \<Rightarrow> string \<Rightarrow> string" where
  "cli_content fs content_arg =
     (case fs content_arg of
        Some text \<Rightarrow> text
      | None \<Rightarrow> str_replace [BSL, CHR ''n''] [NL] content_arg)"

text \<open>
  \<open>main\<close> called with \<^verbatim>\<open>version title content\<close>: the exit status and the files afterwards.
  \<open>announcements_file\<close> is the path \<^verbatim>\<open>ANNOUNCEMENTS_FILE\<close>.
\<close>

definition main_three ::
  "string \<Rightarrow> bool \<Rightarrow> files \<Rightarrow> string \<Rightarrow> string \<Rightarrow> string \<Rightarrow> nat \<times> files" where
  "main_three announcements_file dry_run fs v t content_arg =
     (let c = cli_content fs content_arg in
      if v = [] \<or> t = [] \<or> c = [] then (1, fs)
      else
        (case fs announcements_file of
           None \<Rightarrow> (1, fs)
         | Some file_content \<Rightarrow>
             (case snd (update_announcement file_content v t c) of
                Inl e \<Rightarrow> (1, fs)
              | Inr new_content \<Rightarrow>
                  if dry_run then (0, fs) else (0, fs(announcements_file \<mapsto> new_content)))))"

section \<open>check_translation_keys.py\<close>

text \<open>
  A loaded YAML value is a dictionary, a list or something else.  Dictionaries keep the
  order of insertion, so they are lists of pairs with distinct keys; keys are strings.
\<close>

datatype yaml = YDict "(string \<times> yaml) list" | YList "yaml list" | YLeaf string

text \<open>\<^verbatim>\<open>dict(items)\<close>: a key that comes again keeps its place and takes the new value.\<close>

fun dict_set :: "string \<Rightarrow> 'v \<Rightarrow> (string \<times> 'v) list \<Rightarrow> (string \<times> 'v) list" where
  "dict_set k v [] = [(k, v)]"
| "dict_set k v ((k', v') # d) = (if k' = k then (k, v) # d else (k', v') # dict_set k v d)"

definition dict_of :: "(string \<times> 'v) list \<Rightarrow> (string \<times> 'v) list" where
  "dict_of items = foldl (\<lambda>d (k, v). dict_set k v d) [] items"

text \<open>\<^verbatim>\<open>f'{parent_key}{sep}{k}' if parent_key else k\<close>\<close>

definition new_key :: "string \<Rightarrow> string \<Rightarrow> string \<Rightarrow> string" where
  "new_key parent_key sep k = (if parent_key \<noteq> [] then parent_key @ sep @ k else k)"

text \<open>
  \<open>flatten_items\<close> is the list \<^verbatim>\<open>items\<close> that the loop of \<open>flatten_dict\<close> builds, and
  \<open>flatten_dict\<close> the dictionary made of it.
\<close>

fun flatten_items :: "(string \<times> yaml) list \<Rightarrow> string \<Rightarrow> string \<Rightarrow> (string \<times> yaml) list" where
  "flatten_items [] parent_key sep = []"
| "flatten_items ((k, YDict d) # kvs) parent_key sep =
     dict_of (flatten_items d (new_key parent_key sep k) sep) @ flatten_items kvs parent_key sep"
| "flatten_items ((k, YList xs) # kvs) parent_key sep =
     (new_key parent_key sep k, YList xs) # flatten_items kvs parent_key sep"
| "flatten_items ((k, YLeaf x) # kvs) parent_key sep =
     (new_key parent_key sep k, YLeaf x) # flatten_items kvs parent_key sep"

definition flatten_dict :: "(string \<times> yaml) list \<Rightarrow> string \<Rightarrow> string \<Rightarrow> (string \<times> yaml) list" where
  "flatten_dict d parent_key sep = dict_of (flatten_items d parent_key sep)"

text \<open>The two loops of \<open>main\<close> over the sorted keys.\<close>

definition missing_keys :: "(string \<times> 'v) list \<Rightarrow> (string \<times> 'v) list \<Rightarrow> string list" where
  "missing_keys en_flat target_flat =
     filter (\<lambda>key. key \<notin> fst ` set target_flat) (sort (map fst en_flat))"

definition extra_keys :: "(string \<times> 'v) list \<Rightarrow> (string \<times> 'v) list \<Rightarrow> string list" where
  "extra_keys en_flat target_flat =
     filter (\<lambda>key. key \<notin> fst ` set en_flat) (sort (map fst target_flat))"

section \<open>Auxiliary definitions for the proofs\<close>

text \<open>What line 204 makes of one character of the content.\<close>

definition content_char :: "char \<Rightarrow> string" where
  "content_char c =
     (if c = NL then [BSL, BSL, CHR ''n''] else if c = DQ then [BSL, DQ] else [c])"

text \<open>The template items that \<open>parse_template\<close> reads from \<open>content_char c\<close>.\<close>

definition content_items :: "char \<Rightarrow> titem list" where
  "content_items c =
     (if c = NL then [TLit BSL, TLit (CHR ''n'')]
      else if c = DQ then [TLit BSL, TLit DQ] else [TLit c])"

text \<open>
  The specification of the flattener in the words of the claim: the leaves of a nested
  mapping with their key paths.  Only dictionaries are entered; a list is a leaf.  The
  key of a leaf is its path joined with the separator.
\<close>

fun leaves :: "(string \<times> yaml) list \<Rightarrow> (string list \<times> yaml) list" where
  "leaves [] = []"
| "leaves ((k, YDict d) # kvs) = map (\<lambda>(path, v). (k # path, v)) (leaves d) @ leaves kvs"
| "leaves ((k, YList xs) # kvs) = ([k], YList xs) # leaves kvs"
| "leaves ((k, YLeaf x) # kvs) = ([k], YLeaf x) # leaves kvs"

definition dotted :: "string list \<times> yaml \<Rightarrow> string \<times> yaml" where
  "dotted = (\<lambda>(path, v). (join ''.'' path, v))"

text \<open>The key that the flattener reaches along a path of keys below \<open>parent_key\<close>.\<close>

definition path_key :: "string \<Rightarrow> string \<Rightarrow> string list \<Rightarrow> string" where
  "path_key parent_key sep path = foldl (\<lambda>acc k. new_key acc sep k) parent_key path"

fun is_dict :: "yaml \<Rightarrow> bool" where
  "is_dict (YDict d) = True"
| "is_dict (YList xs) = False"
| "is_dict (YLeaf x) = False"

text \<open>One step of \<open>dict_of\<close>.\<close>

abbreviation put :: "(string \<times> 'v) list \<Rightarrow> string \<times> 'v \<Rightarrow> (string \<times> 'v) list" where
  "put \<equiv> (\<lambda>d (k, v). dict_set k v d)"

text \<open>
  The first way in which a pattern matches, if there is one: the match that \<^verbatim>\<open>re\<close> reports.
\<close>

definition first_match :: "piece list \<Rightarrow> capstate \<Rightarrow> string \<Rightarrow> (string list \<times> string) option" where
  "first_match ps st s = (case rx_match ps st s of [] \<Rightarrow> None | x # _ \<Rightarrow> Some x)"

text \<open>The capture state after a whole string has been consumed.\<close>

fun pushes :: "string \<Rightarrow> capstate \<Rightarrow> capstate" where
  "pushes w (caps, cur) = (caps, map_option (\<lambda>x. x @ w) cur)"

text \<open>
  \<^verbatim>\<open>s.partition(sep)\<close> without the separator: the text before the first occurrence of
  \<open>sep\<close> in \<open>s\<close> and the text after it, if \<open>sep\<close> occurs.
\<close>

fun split_first :: "string \<Rightarrow> string \<Rightarrow> (string \<times> string) option" where
  "split_first sep [] = (if sep = [] then Some ([], []) else None)"
| "split_first sep (c # cs) =
     (if prefix sep (c # cs) then Some ([], drop (length sep) (c # cs))
      else map_option (\<lambda>(a, b). (c # a, b)) (split_first sep cs))"

text \<open>
  Example documents.  \<open>bad_doc\<close> has one block, whose title is empty, so that the block
  does not match \<open>ann_pattern\<close>.  \<open>two_arrays\<close> declares the array twice.  The first block
  of \<open>one_line_doc\<close> is written on one line.
\<close>

definition bad_block :: string where
  "bad_block =
     ''VersionAnnouncement { version: '' @ [DQ] @ ''0.5.0'' @ [DQ] @
     '', title: '' @ [DQ, DQ] @ '', content: '' @ [DQ] @ ''x'' @ [DQ] @ '' },''"

definition bad_doc :: string where
  "bad_doc = MARKER @ bad_block @ CLOSER"

definition two_arrays :: string where
  "two_arrays = MARKER @ CLOSER @ '' // '' @ MARKER @ CLOSER"

definition one_line_block :: string where
  "one_line_block =
     ''VersionAnnouncement { version: '' @ [DQ] @ ''1'' @ [DQ] @
     '', title: '' @ [DQ] @ ''a'' @ [DQ] @ '', content: '' @ [DQ] @ ''b'' @ [DQ] @ '' },''"

definition one_line_body :: string where
  "one_line_body =
     one_line_block @
     ''VersionAnnouncement { version: '' @ [DQ] @ ''2'' @ [DQ] @
     '', title: '' @ [DQ] @ ''c'' @ [DQ] @ '', content: '' @ [DQ] @ ''d'' @ [DQ] @ '' },''"

definition one_line_doc :: string where
  "one_line_doc = MARKER @ one_line_body @ CLOSER"

text \<open>The block that \<open>update_announcement\<close> writes for given fields, as it stands in the file.\<close>

definition block_text :: "string \<Rightarrow> string \<Rightarrow> string \<Rightarrow> string" where
  "block_text v t c =
     ''    VersionAnnouncement {'' @ [NL] @
     ''        version: '' @ [DQ] @ v @ [DQ] @ '','' @ [NL] @
     ''        title: '' @ [DQ] @ t @ [DQ] @ '','' @ [NL] @
     ''        content: '' @ [DQ] @ c @ [DQ] @ '','' @ [NL] @
     ''    },''"

text \<open>A result that is not the \<^verbatim>\<open>ValueError\<close> of \<open>parse_announcements\<close>.\<close>

definition re_result :: "error + 'a \<Rightarrow> bool" where
  "re_result r = (case r of Inl e \<Rightarrow> e = ReError \<or> e = IndexError | Inr x \<Rightarrow> True)"

text \<open>
  A template that, if it is well formed, ends in a reference to group 3; and the ends of
  template text for which this holds: the \<^verbatim>\<open>\3\<close> that follows the newline of the
  replacement, or that is all that is left of it.
\<close>

definition ends_group3 :: "error + titem list \<Rightarrow> bool" where
  "ends_group3 r = (case r of Inl e \<Rightarrow> True | Inr items \<Rightarrow> (\<exists>mid. items = mid @ [TGroup 3]))"

definition group3_tail :: "string \<Rightarrow> bool" where
  "group3_tail s = (s = [BSL, CHR ''3''] \<or> suffix [NL, BSL, CHR ''3''] s)"

text \<open>
  What the file holds after \<^verbatim>\<open>re.sub\<close> has expanded the template: in a version or a title
  only the quotes carry a backslash, since the template reads a doubled backslash as one;
  in a content without backslashes a newline is backslash, n.  \<open>rendered_body\<close> is the
  text between the marker and the closing \<^verbatim>\<open>];\<close>.
\<close>

definition quote_escaped :: "string \<Rightarrow> string" where
  "quote_escaped s = concat (map (\<lambda>c. if c = DQ then [BSL, DQ] else [c]) s)"

definition stored_content :: "string \<Rightarrow> string" where
  "stored_content s =
     concat (map (\<lambda>c. if c = NL then [BSL, CHR ''n''] else if c = DQ then [BSL, DQ] else [c]) s)"

definition stored_block :: "announcement \<Rightarrow> string" where
  "stored_block a =
     block_text (quote_escaped (version a)) (quote_escaped (title a)) (stored_content (content a))"

definition rendered_body :: "announcement list \<Rightarrow> string" where
  "rendered_body anns = [NL] @ HEADER @ concat (map (\<lambda>a. NL # stored_block a) anns) @ [NL]"

definition small_doc :: string where
  "small_doc = ''// '' @ MARKER @ CLOSER @ '' fn f() {}''"

text \<open>The announcements after the update of the one at position \<open>i\<close>.\<close>

definition updated :: "announcement list \<Rightarrow> nat \<Rightarrow> string \<Rightarrow> string \<Rightarrow> announcement list" where
  "updated anns i t c = anns[i := (anns ! i)\<lparr>title := t, content := c\<rparr>]"

text \<open>
  Fields that come back unchanged when the rendered array is parsed again: not empty,
  without double quote and backslash, without the closing \<^verbatim>\<open>];\<close>, and not ending in
  one of the field names of \<open>ann_pattern\<close> (white space at the end aside).
\<close>

definition key_end :: "string \<Rightarrow> string \<Rightarrow> bool" where
  "key_end k f = prefix (rev k) (dropWhile is_space (rev f))"

definition ends_in_name :: "string \<Rightarrow> bool" where
  "ends_in_name f = (key_end ''version:'' f \<or> key_end ''title:'' f \<or> key_end ''content:'' f)"

definition clean_field :: "string \<Rightarrow> bool" where
  "clean_field f =
     (f \<noteq> [] \<and> DQ \<notin> set f \<and> BSL \<notin> set f \<and> \<not> contains CLOSER f \<and> \<not> ends_in_name f)"

definition clean_ann :: "announcement \<Rightarrow> bool" where
  "clean_ann a = (clean_field (version a) \<and> clean_field (title a) \<and> clean_field (content a))"

text \<open>
  The text \<open>s\<close> begins with the field name \<open>k\<close>, white space and a quote; and: no such
  beginning at any position of \<open>s\<close> up to its first character \<open>b\<close>.
\<close>

definition key_quote :: "string \<Rightarrow> string \<Rightarrow> bool" where
  "key_quote k s =
     (prefix k s \<and>
      (case dropWhile is_space (drop (length k) s) of [] \<Rightarrow> False | c # _ \<Rightarrow> c = DQ))"

fun no_later :: "char \<Rightarrow> string \<Rightarrow> string \<Rightarrow> bool" where
  "no_later b k [] = True"
| "no_later b k (c # cs) = (\<not> key_quote k (c # cs) \<and> (c = b \<or> no_later b k cs))"

text \<open>No \<^verbatim>\<open>];\<close> begins in the text.\<close>

fun no_pair :: "string \<Rightarrow> bool" where
  "no_pair [] = True"
| "no_pair [c] = True"
| "no_pair (c # d # s) = (\<not> (c = CHR '']'' \<and> d = CHR '';'') \<and> no_pair (d # s))"

section \<open>The codec: escaping and unescaping\<close>

lemma unescape_plain: "c \<noteq> BSL \<Longrightarrow> unescape (c # t) = c # unescape t"
  by (cases t) simp_all

lemma unescape_escape_char: "unescape (escape_char c @ t) = c # unescape t"
  by (simp add: unescape_plain)

lemma unescape_escape: "unescape (escape_rust_string s @ t) = s @ unescape t"
  by (induction s) (simp_all add: escape_rust_string_def unescape_escape_char del: escape_char.simps)

lemma replace_from_single:
  "replace_from a [] new s = concat (map (\<lambda>c. if c = a then new else [c]) s)"
  by (induction s) simp_all

lemma str_replace_single:
  "str_replace [a] new s = concat (map (\<lambda>c. if c = a then new else [c]) s)"
  by (simp add: str_replace_def replace_from_single)

lemma format_content_chars: "format_content s = concat (map content_char s)"
  by (induction s) (simp_all add: format_content_def str_replace_single content_char_def)

lemma parse_template_plain:
  "c \<noteq> BSL \<Longrightarrow> parse_template n (c # t) = then_items [TLit c] (parse_template n t)"
  by (cases t) (simp_all add: then_items_def)

lemma parse_template_bsl_bsl:
  "parse_template n (BSL # BSL # t) = then_items [TLit BSL] (parse_template n t)"
  by (simp add: is_digit_def char_escape_def)

lemma parse_template_bsl_dq:
  "parse_template n (BSL # DQ # t) = then_items [TLit BSL, TLit DQ] (parse_template n t)"
  by (simp add: is_digit_def char_escape_def is_ascii_letter_def)

declare parse_template.simps(3) [simp del]

lemma then_items_append: "then_items xs (then_items ys r) = then_items (xs @ ys) r"
  by (cases r) (simp_all add: then_items_def)

lemma then_items_Nil: "then_items [] r = r"
  by (cases r) (simp_all add: then_items_def)

lemma parse_template_content_char:
  "c \<noteq> BSL \<Longrightarrow>
   parse_template n (content_char c @ t) = then_items (content_items c) (parse_template n t)"
  by (simp add: content_char_def content_items_def parse_template_bsl_bsl parse_template_bsl_dq
      parse_template_plain then_items_append)

lemma parse_template_content:
  "BSL \<notin> set s \<Longrightarrow>
   parse_template n (format_content s @ t) =
   then_items (concat (map content_items s)) (parse_template n t)"
proof (induction s)
  case Nil
  then show ?case by (simp add: format_content_chars then_items_Nil)
next
  case (Cons c s)
  then have c: "c \<noteq> BSL" and IH: "parse_template n (format_content s @ t) =
      then_items (concat (map content_items s)) (parse_template n t)"
    by auto
  have "parse_template n (format_content (c # s) @ t) =
        parse_template n (content_char c @ (format_content s @ t))"
    by (simp add: format_content_chars)
  also have "\<dots> = then_items (content_items c) (parse_template n (format_content s @ t))"
    using c by (rule parse_template_content_char)
  finally show ?case
    by (simp add: IH then_items_append)
qed

lemma expand_append: "expand (xs @ ys) g = expand xs g @ expand ys g"
  by (simp add: expand_def)

lemma unescape_content_items:
  "c \<noteq> BSL \<Longrightarrow> unescape (expand (content_items c) g @ t) = c # unescape t"
  by (simp add: content_items_def expand_def unescape_plain)

lemma unescape_expand_content:
  "BSL \<notin> set s \<Longrightarrow> unescape (expand (concat (map content_items s)) g @ t) = s @ unescape t"
proof (induction s)
  case Nil
  then show ?case by (simp add: expand_def)
next
  case (Cons c s)
  then have c: "c \<noteq> BSL"
    and IH: "unescape (expand (concat (map content_items s)) g @ t) = s @ unescape t"
    by auto
  have "unescape (expand (concat (map content_items (c # s))) g @ t) =
        unescape (expand (content_items c) g @ (expand (concat (map content_items s)) g @ t))"
    by (simp add: expand_append)
  also have "\<dots> = c # unescape (expand (concat (map content_items s)) g @ t)"
    using c by (rule unescape_content_items)
  finally show ?case
    by (simp add: IH)
qed

text \<open>
  Claim C1, as the code has it.  Decoding what \<open>escape_rust_string\<close> produced gives the
  string back, for every string: this is the escaping of the version and of the title.
  The content is escaped by line 204 instead, which leaves backslashes alone and writes a
  newline as backslash, backslash, n; \<^verbatim>\<open>re.sub\<close> then reads the doubled backslash of its
  template as one.  For every content without a backslash the template is well formed,
  and the text it expands to decodes back to the content.
\<close>

theorem codec_roundtrip:
  "unescape (escape_rust_string s) = s \<and>
   (BSL \<notin> set c \<longrightarrow>
      (\<exists>items. parse_template n (format_content c) = Inr items \<and>
               unescape (expand items groups) = c))"
proof
  show "unescape (escape_rust_string s) = s"
    using unescape_escape [of s "[]"] by simp
  show "BSL \<notin> set c \<longrightarrow>
      (\<exists>items. parse_template n (format_content c) = Inr items \<and>
               unescape (expand items groups) = c)"
  proof
    assume c: "BSL \<notin> set c"
    have "parse_template n (format_content c) = Inr (concat (map content_items c))"
      using parse_template_content [OF c, of n "[]"] by (simp add: then_items_def)
    moreover have "unescape (expand (concat (map content_items c)) groups) = c"
      using unescape_expand_content [OF c, of groups "[]"] by simp
    ultimately show "\<exists>items. parse_template n (format_content c) = Inr items \<and>
               unescape (expand items groups) = c"
      by blast
  qed
qed

theorem codec_roundtrip_witness:
  "unescape (escape_rust_string ([BSL, DQ, NL] @ ''a'')) = [BSL, DQ, NL] @ ''a'' \<and>
   BSL \<notin> set (''a'' @ [NL, DQ]) \<and>
   (\<exists>items. parse_template 3 (format_content (''a'' @ [NL, DQ])) = Inr items \<and>
            unescape (expand items []) = ''a'' @ [NL, DQ])"
  using codec_roundtrip [of "[BSL, DQ, NL] @ ''a''" "''a'' @ [NL, DQ]" 3 "[]"] by simp

text \<open>
  Claim C1 as stated fails for the content field: the escaped form of a newline decodes to
  backslash, n, and the escaped form of two backslashes decodes to one backslash, also
  after the template has been expanded.
\<close>

theorem content_roundtrip_counterexample:
  "unescape (format_content [NL]) = [BSL, CHR ''n''] \<and>
   unescape (format_content [BSL, BSL]) = [BSL] \<and>
   parse_template 3 (format_content [BSL, BSL]) = Inr [TLit BSL]"
proof -
  have "format_content [BSL, BSL] = [BSL, BSL]" and "format_content [NL] = [BSL, BSL, CHR ''n'']"
    by (simp_all add: format_content_chars content_char_def)
  moreover have "parse_template 3 [BSL, BSL] = Inr [TLit BSL]"
    by (subst parse_template_bsl_bsl) (simp add: then_items_def)
  ultimately show ?thesis
    by simp
qed

section \<open>The upsert\<close>

lemma find_existing_Some:
  "find_existing anns v = Some i \<longleftrightarrow>
   i < length anns \<and> version (anns ! i) = v \<and> (\<forall>j<i. version (anns ! j) \<noteq> v)"
proof (induction anns arbitrary: i)
  case Nil
  then show ?case by simp
next
  case (Cons a anns)
  show ?case
  proof (cases "version a = v")
    case True
    then show ?thesis by (cases i) auto
  next
    case False
    show ?thesis
    proof (cases i)
      case 0
      with False show ?thesis by simp
    next
      case (Suc k)
      have "(\<forall>j<Suc k. version ((a # anns) ! j) \<noteq> v) \<longleftrightarrow> (\<forall>j<k. version (anns ! j) \<noteq> v)"
        using False by (auto simp: less_Suc_eq_0_disj)
      with Suc False Cons.IH [of k] show ?thesis by auto
    qed
  qed
qed

lemma find_existing_None: "find_existing anns v = None \<longleftrightarrow> (\<forall>a \<in> set anns. version a \<noteq> v)"
  by (induction anns) auto

text \<open>
  Claim C7.  If some announcement has the given version, the first such announcement gets
  the new title and content at its place, every other announcement and the length of the
  list stay as they are, and the message is the one of an update.  If no announcement has
  the version, a new one with the given version, title and content is appended after the
  last, and the message is the one of an addition.
\<close>

theorem upsert_found_or_appended:
  "((\<exists>a \<in> set anns. version a = v) \<longrightarrow>
      (\<exists>i<length anns. version (anns ! i) = v \<and> (\<forall>j<i. version (anns ! j) \<noteq> v) \<and>
         fst (upsert anns v t c) = anns[i := (anns ! i)\<lparr>title := t, content := c\<rparr>] \<and>
         length (fst (upsert anns v t c)) = length anns \<and>
         version (fst (upsert anns v t c) ! i) = v \<and>
         (\<forall>j<length anns. j \<noteq> i \<longrightarrow> fst (upsert anns v t c) ! j = anns ! j) \<and>
         was_update (snd (upsert anns v t c)))) \<and>
   ((\<forall>a \<in> set anns. version a \<noteq> v) \<longrightarrow>
      fst (upsert anns v t c) = anns @ [\<lparr>version = v, title = t, content = c\<rparr>] \<and>
      \<not> was_update (snd (upsert anns v t c)))"
proof (intro conjI impI)
  assume "\<exists>a \<in> set anns. version a = v"
  then have "find_existing anns v \<noteq> None"
    by (simp add: find_existing_None)
  then obtain i where i: "find_existing anns v = Some i"
    by blast
  then have props: "i < length anns" "version (anns ! i) = v" "\<forall>j<i. version (anns ! j) \<noteq> v"
    by (simp_all add: find_existing_Some)
  have "fst (upsert anns v t c) = anns[i := (anns ! i)\<lparr>title := t, content := c\<rparr>]"
    and "was_update (snd (upsert anns v t c))"
    using i by (simp_all add: upsert_def)
  with props show "\<exists>i<length anns. version (anns ! i) = v \<and> (\<forall>j<i. version (anns ! j) \<noteq> v) \<and>
         fst (upsert anns v t c) = anns[i := (anns ! i)\<lparr>title := t, content := c\<rparr>] \<and>
         length (fst (upsert anns v t c)) = length anns \<and>
         version (fst (upsert anns v t c) ! i) = v \<and>
         (\<forall>j<length anns. j \<noteq> i \<longrightarrow> fst (upsert anns v t c) ! j = anns ! j) \<and>
         was_update (snd (upsert anns v t c))"
    by (intro exI [of _ i]) simp
next
  assume "\<forall>a \<in> set anns. version a \<noteq> v"
  then have "find_existing anns v = None"
    by (simp add: find_existing_None)
  then show "fst (upsert anns v t c) = anns @ [\<lparr>version = v, title = t, content = c\<rparr>]"
    and "\<not> was_update (snd (upsert anns v t c))"
    by (simp_all add: upsert_def)
qed

theorem upsert_found_or_appended_witness:
  "(\<exists>a \<in> set [\<lparr>version = ''1'', title = ''a'', content = ''b''\<rparr>,
                 \<lparr>version = ''2'', title = ''c'', content = ''d''\<rparr>]. version a = ''2'') \<and>
   upsert [\<lparr>version = ''1'', title = ''a'', content = ''b''\<rparr>,
           \<lparr>version = ''2'', title = ''c'', content = ''d''\<rparr>] ''2'' ''t'' ''x'' =
     ([\<lparr>version = ''1'', title = ''a'', content = ''b''\<rparr>,
       \<lparr>version = ''2'', title = ''t'', content = ''x''\<rparr>], Updating_existing ''2'') \<and>
   ''3'' \<notin> version ` set [\<lparr>version = ''1'', title = ''a'', content = ''b''\<rparr>] \<and>
   fst (upsert [\<lparr>version = ''1'', title = ''a'', content = ''b''\<rparr>] ''3'' ''t'' ''x'') =
     [\<lparr>version = ''1'', title = ''a'', content = ''b''\<rparr>,
      \<lparr>version = ''3'', title = ''t'', content = ''x''\<rparr>] \<and>
   \<not> was_update (snd (upsert [\<lparr>version = ''1'', title = ''a'', content = ''b''\<rparr>] ''3'' ''t'' ''x''))"
  using upsert_found_or_appended [of "[\<lparr>version = ''1'', title = ''a'', content = ''b''\<rparr>,
           \<lparr>version = ''2'', title = ''c'', content = ''d''\<rparr>]" "''2'' " "''t''" "''x''"]
    upsert_found_or_appended [of "[\<lparr>version = ''1'', title = ''a'', content = ''b''\<rparr>]" "''3''" "''t''" "''x''"]
  by (simp add: upsert_def)

section \<open>The content argument of the command line\<close>

lemma contains_sublist: "contains sub s \<longleftrightarrow> sublist sub s"
  by (induction s) (auto simp: sublist_Cons_right)

lemma contains_iff: "contains sub s \<longleftrightarrow> (\<exists>a b. s = a @ sub @ b)"
  by (simp add: contains_sublist sublist_def)

lemma replace_bn_head:
  "prefix [CHR ''n''] (replace_from BSL [CHR ''n''] [NL] s) \<Longrightarrow> prefix [CHR ''n''] s"
  by (cases s) (auto split: if_splits)

lemma replace_bn_free: "\<not> contains [BSL, CHR ''n''] (replace_from BSL [CHR ''n''] [NL] s)"
proof (induction BSL "[CHR ''n'']" "[NL]" s rule: replace_from.induct)
  case 1
  then show ?case by simp
next
  case (2 c cs)
  show ?case
  proof (cases "c = BSL \<and> prefix [CHR ''n''] cs")
    case True
    with 2 show ?thesis by simp
  next
    case False
    with 2 have IH: "\<not> contains [BSL, CHR ''n''] (replace_from BSL [CHR ''n''] [NL] cs)"
      by blast
    have eq: "replace_from BSL [CHR ''n''] [NL] (c # cs) = c # replace_from BSL [CHR ''n''] [NL] cs"
      using False by auto
    have "\<not> prefix [BSL, CHR ''n''] (c # replace_from BSL [CHR ''n''] [NL] cs)"
      using False replace_bn_head [of cs] by auto
    with IH show ?thesis unfolding eq by simp
  qed
qed

lemma replace_bn_append:
  "replace_from BSL [CHR ''n''] [NL] (a @ BSL # CHR ''n'' # b) =
   replace_from BSL [CHR ''n''] [NL] a @ NL # replace_from BSL [CHR ''n''] [NL] b"
proof (induction BSL "[CHR ''n'']" "[NL]" a rule: replace_from.induct)
  case 1
  then show ?case by simp
next
  case (2 c cs)
  show ?case
  proof (cases "c = BSL \<and> prefix [CHR ''n''] cs")
    case True
    then obtain cs' where cs: "cs = CHR ''n'' # cs'"
      by (auto simp: prefix_def)
    with True 2 show ?thesis by simp
  next
    case False
    then have "\<not> (c = BSL \<and> prefix [CHR ''n''] (cs @ BSL # CHR ''n'' # b))"
      by (cases cs) auto
    with False 2 show ?thesis by simp
  qed
qed

text \<open>
  Claim C10.  When the third argument names no file, the content is the argument with
  \<^verbatim>\<open>str.replace\<close> applied: each occurrence of backslash, n has become a newline (the
  replacement goes through every split of the argument at an occurrence), the result has
  no occurrence of backslash, n left, and this result is what \<open>main\<close> hands to
  \<open>update_announcement\<close>.
\<close>

theorem cli_content_replaces_escapes:
  assumes "fs content_arg = None"
  shows "cli_content fs content_arg = str_replace [BSL, CHR ''n''] [NL] content_arg \<and>
         \<not> contains [BSL, CHR ''n''] (cli_content fs content_arg) \<and>
         (\<forall>a b. cli_content fs content_arg \<noteq> a @ [BSL, CHR ''n''] @ b) \<and>
         (\<forall>a b. content_arg = a @ [BSL, CHR ''n''] @ b \<longrightarrow>
            cli_content fs content_arg =
            str_replace [BSL, CHR ''n''] [NL] a @ [NL] @ str_replace [BSL, CHR ''n''] [NL] b) \<and>
         main_three file dry_run fs v t content_arg =
           (if v = [] \<or> t = [] \<or> cli_content fs content_arg = [] then (1, fs)
            else case fs file of
                   None \<Rightarrow> (1, fs)
                 | Some file_content \<Rightarrow>
                     (case snd (update_announcement file_content v t
                                  (str_replace [BSL, CHR ''n''] [NL] content_arg)) of
                        Inl e \<Rightarrow> (1, fs)
                      | Inr new_content \<Rightarrow>
                          if dry_run then (0, fs) else (0, fs(file \<mapsto> new_content))))"
proof -
  have c: "cli_content fs content_arg = replace_from BSL [CHR ''n''] [NL] content_arg"
    using assms by (simp add: cli_content_def str_replace_def)
  have free: "\<not> contains [BSL, CHR ''n''] (cli_content fs content_arg)"
    unfolding c by (rule replace_bn_free)
  then have "\<forall>a b. cli_content fs content_arg \<noteq> a @ [BSL, CHR ''n''] @ b"
    unfolding contains_iff by blast
  moreover have "\<forall>a b. content_arg = a @ [BSL, CHR ''n''] @ b \<longrightarrow>
            cli_content fs content_arg =
            str_replace [BSL, CHR ''n''] [NL] a @ [NL] @ str_replace [BSL, CHR ''n''] [NL] b"
    unfolding c by (auto simp: str_replace_def replace_bn_append)
  moreover have "cli_content fs content_arg = str_replace [BSL, CHR ''n''] [NL] content_arg"
    unfolding c by (simp add: str_replace_def)
  ultimately show ?thesis
    using free by (simp add: main_three_def Let_def)
qed

theorem cli_content_replaces_escapes_witness:
  "(Map.empty :: files) (''a'' @ [BSL, CHR ''n''] @ ''b'' @ [BSL, BSL, CHR ''n'']) = None \<and>
   cli_content Map.empty (''a'' @ [BSL, CHR ''n''] @ ''b'' @ [BSL, BSL, CHR ''n'']) =
     ''a'' @ [NL] @ ''b'' @ [BSL, NL] \<and>
   \<not> contains [BSL, CHR ''n''] (cli_content Map.empty (''a'' @ [BSL, CHR ''n''] @ ''b'' @ [BSL, BSL, CHR ''n'']))"
  using cli_content_replaces_escapes [of Map.empty "''a'' @ [BSL, CHR ''n''] @ ''b'' @ [BSL, BSL, CHR ''n'']"]
  by (simp add: str_replace_def)

section \<open>The locale checker\<close>

lemma set_missing_keys: "set (missing_keys en t) = fst ` set en - fst ` set t"
  by (auto simp: missing_keys_def)

lemma set_extra_keys: "set (extra_keys en t) = fst ` set t - fst ` set en"
  by (auto simp: extra_keys_def)

lemma sorted_missing_keys: "sorted (missing_keys en t)"
  by (simp add: missing_keys_def sorted_wrt_filter)

lemma sorted_extra_keys: "sorted (extra_keys en t)"
  by (simp add: extra_keys_def sorted_wrt_filter)

lemma sort_keys_cong:
  fixes xs ys :: "string list"
  assumes "distinct xs" "distinct ys" "set xs = set ys"
  shows "sort xs = sort ys"
  using assms by (metis distinct_sort set_sort sorted_sort sorted_distinct_set_unique)

text \<open>
  Claim C8.  For two flattened mappings, the missing keys are a sorted list of exactly the
  keys of the English mapping that the target lacks, the extra keys a sorted list of
  exactly the keys of the target that the English mapping lacks; as the keys of a
  dictionary are distinct, no key is listed twice.  Both lists depend on which keys are
  present only: mappings with the same keys and any other values or order give the same
  lists.
\<close>

theorem key_differ:
  "sorted (missing_keys en t) \<and> set (missing_keys en t) = fst ` set en - fst ` set t \<and>
   sorted (extra_keys en t) \<and> set (extra_keys en t) = fst ` set t - fst ` set en \<and>
   (distinct (map fst en) \<longrightarrow> distinct (missing_keys en t)) \<and>
   (distinct (map fst t) \<longrightarrow> distinct (extra_keys en t)) \<and>
   (distinct (map fst en) \<and> distinct (map fst en') \<and> fst ` set en' = fst ` set en \<and>
    distinct (map fst t) \<and> distinct (map fst t') \<and> fst ` set t' = fst ` set t \<longrightarrow>
      missing_keys en' t' = missing_keys en t \<and> extra_keys en' t' = extra_keys en t)"
proof -
  have "missing_keys en' t' = missing_keys en t" "extra_keys en' t' = extra_keys en t"
    if "distinct (map fst en)" "distinct (map fst en')" "fst ` set en' = fst ` set en"
      "distinct (map fst t)" "distinct (map fst t')" "fst ` set t' = fst ` set t"
  proof -
    have "sort (map fst en') = sort (map fst en)" "sort (map fst t') = sort (map fst t)"
      using that by (auto intro: sort_keys_cong)
    with that show "missing_keys en' t' = missing_keys en t" "extra_keys en' t' = extra_keys en t"
      by (simp_all add: missing_keys_def extra_keys_def)
  qed
  moreover have "distinct (missing_keys en t)" if "distinct (map fst en)"
    using that by (simp add: missing_keys_def)
  moreover have "distinct (extra_keys en t)" if "distinct (map fst t)"
    using that by (simp add: extra_keys_def)
  ultimately show ?thesis
    using set_missing_keys [of en t] set_extra_keys [of en t]
      sorted_missing_keys [of en t] sorted_extra_keys [of en t]
    by blast
qed

theorem key_differ_witness:
  "missing_keys [(''b.c'', 1::nat), (''a'', 2)] [(''z'', 3::nat), (''a'', 4)] = [''b.c''] \<and>
   extra_keys [(''b.c'', 1::nat), (''a'', 2)] [(''z'', 3::nat), (''a'', 4)] = [''z''] \<and>
   missing_keys [(''a'', 7::nat), (''b.c'', 7)] [(''a'', 7::nat), (''z'', 7)] =
     missing_keys [(''b.c'', 1::nat), (''a'', 2)] [(''z'', 3::nat), (''a'', 4)] \<and>
   sorted (missing_keys [(''b.c'', 1::nat), (''a'', 2)] [(''z'', 3::nat), (''a'', 4)])"
  using key_differ [of "[(''b.c'', 1::nat), (''a'', 2)]" "[(''z'', 3::nat), (''a'', 4)]"
      "[(''a'', 7::nat), (''b.c'', 7)]" "[(''a'', 7::nat), (''z'', 7)]"]
  by (simp add: missing_keys_def extra_keys_def)

lemma map_fst_dict_set:
  "map fst (dict_set k v d) = (if k \<in> set (map fst d) then map fst d else map fst d @ [k])"
  by (induction d) (auto split: if_splits)

lemma keys_dict_set: "fst ` set (dict_set k v d) = insert k (fst ` set d)"
proof -
  have "set (map fst (dict_set k v d)) = insert k (set (map fst d))"
    unfolding map_fst_dict_set by auto
  then show ?thesis by simp
qed

lemma distinct_dict_set: "distinct (map fst d) \<Longrightarrow> distinct (map fst (dict_set k v d))"
  unfolding map_fst_dict_set by auto

lemma snd_dict_set: "snd ` set (dict_set k v d) \<subseteq> insert v (snd ` set d)"
proof (induction d)
  case Nil
  then show ?case by simp
next
  case (Cons x d)
  obtain k' v' where x: "x = (k', v')" by (cases x)
  show ?case using Cons by (auto simp: x split: if_splits)
qed

lemma distinct_foldl_put: "distinct (map fst d) \<Longrightarrow> distinct (map fst (foldl put d xs))"
  by (induction xs arbitrary: d) (auto simp: distinct_dict_set)

lemma distinct_dict_of: "distinct (map fst (dict_of xs))"
  by (simp add: dict_of_def distinct_foldl_put)

lemma snd_foldl_put: "snd ` set (foldl put d xs) \<subseteq> snd ` set d \<union> snd ` set xs"
proof (induction xs arbitrary: d)
  case Nil
  then show ?case by simp
next
  case (Cons x xs)
  obtain k v where x: "x = (k, v)" by (cases x)
  show ?case
    using Cons.IH [of "dict_set k v d"] snd_dict_set [of k v d] by (auto simp: x)
qed

lemma snd_dict_of: "snd ` set (dict_of xs) \<subseteq> snd ` set xs"
  using snd_foldl_put [of "[]" xs] by (simp add: dict_of_def)

lemma dict_set_twice: "dict_set k v (dict_set k v' d) = dict_set k v d"
  by (induction d) auto

lemma dict_set_commute:
  "k \<noteq> k' \<Longrightarrow> k \<in> fst ` set d \<Longrightarrow>
   dict_set k v (dict_set k' v' d) = dict_set k' v' (dict_set k v d)"
proof (induction d)
  case Nil
  then show ?case by simp
next
  case (Cons x d)
  obtain a b where x: "x = (a, b)" by (cases x)
  show ?case
  proof (cases "a = k")
    case True
    with Cons.prems show ?thesis by (simp add: x)
  next
    case False
    with Cons.prems have "k \<in> fst ` set d" by (auto simp: x)
    with Cons.IH Cons.prems(1) False show ?thesis by (simp add: x)
  qed
qed

lemma foldl_put_present:
  "k \<notin> fst ` set e \<Longrightarrow> k \<in> fst ` set d \<Longrightarrow>
   foldl put (dict_set k v d) e = dict_set k v (foldl put d e)"
proof (induction e arbitrary: d)
  case Nil
  then show ?case by simp
next
  case (Cons x e)
  obtain k' v' where x: "x = (k', v')" by (cases x)
  from Cons.prems have ne: "k \<noteq> k'" and notin: "k \<notin> fst ` set e"
    by (auto simp: x)
  have "foldl put (dict_set k v d) (x # e) = foldl put (dict_set k v (dict_set k' v' d)) e"
    using dict_set_commute [OF ne Cons.prems(2), of v v'] by (simp add: x)
  also have "\<dots> = dict_set k v (foldl put (dict_set k' v' d) e)"
    using notin Cons.prems(2) by (intro Cons.IH) (simp_all add: keys_dict_set)
  finally show ?case by (simp add: x)
qed

lemma foldl_put_dict_set:
  "distinct (map fst e) \<Longrightarrow> foldl put d (dict_set k v e) = dict_set k v (foldl put d e)"
proof (induction e arbitrary: d)
  case Nil
  then show ?case by simp
next
  case (Cons x e)
  obtain k' v' where x: "x = (k', v')" by (cases x)
  show ?case
  proof (cases "k' = k")
    case True
    with Cons.prems have notin: "k \<notin> fst ` set e"
      by (simp add: x)
    have "foldl put d (dict_set k v (x # e)) = foldl put (dict_set k v (dict_set k v' d)) e"
      using True by (simp add: x dict_set_twice)
    also have "\<dots> = dict_set k v (foldl put (dict_set k v' d) e)"
      using notin by (intro foldl_put_present) (simp_all add: keys_dict_set)
    finally show ?thesis using True by (simp add: x)
  next
    case False
    with Cons show ?thesis by (simp add: x)
  qed
qed

lemma foldl_put_dict_of: "foldl put d (dict_of xs) = foldl put d xs"
proof (induction xs rule: rev_induct)
  case Nil
  then show ?case by (simp add: dict_of_def)
next
  case (snoc x xs)
  obtain k v where x: "x = (k, v)" by (cases x)
  have "dict_of (xs @ [x]) = dict_set k v (dict_of xs)"
    by (simp add: dict_of_def x)
  then show ?case
    using snoc by (simp add: foldl_put_dict_set distinct_dict_of x)
qed

lemma dict_of_append_cong:
  "dict_of a = dict_of a' \<Longrightarrow> dict_of b = dict_of b' \<Longrightarrow> dict_of (a @ b) = dict_of (a' @ b')"
proof -
  assume a: "dict_of a = dict_of a'" and b: "dict_of b = dict_of b'"
  have "dict_of (a @ b) = foldl put (dict_of a) b"
    by (simp add: dict_of_def)
  also have "\<dots> = foldl put (dict_of a') (dict_of b')"
    by (simp add: a foldl_put_dict_of [of _ b, symmetric] b)
  also have "\<dots> = dict_of (a' @ b')"
    by (simp add: foldl_put_dict_of) (simp add: dict_of_def)
  finally show ?thesis .
qed

lemma dict_of_idem: "dict_of (dict_of xs) = dict_of xs"
  using foldl_put_dict_of [of "[]" xs] by (simp add: dict_of_def)

lemma path_key_Cons: "path_key p sep (k # path) = path_key (new_key p sep k) sep path"
  by (simp add: path_key_def)

lemma dict_of_flatten_items:
  "dict_of (flatten_items d p sep) =
   dict_of (map (\<lambda>(path, v). (path_key p sep path, v)) (leaves d))"
proof (induction d p sep rule: flatten_items.induct)
  case (1 p sep)
  then show ?case by simp
next
  case (2 k d kvs p sep)
  have "dict_of (dict_of (flatten_items d (new_key p sep k) sep)) =
        dict_of (map (\<lambda>(path, v). (path_key (new_key p sep k) sep path, v)) (leaves d))"
    by (simp add: dict_of_idem "2.IH"(1))
  then have "dict_of (dict_of (flatten_items d (new_key p sep k) sep) @ flatten_items kvs p sep) =
        dict_of (map (\<lambda>(path, v). (path_key (new_key p sep k) sep path, v)) (leaves d) @
                 map (\<lambda>(path, v). (path_key p sep path, v)) (leaves kvs))"
    using "2.IH"(2) by (rule dict_of_append_cong)
  then show ?case
    by (simp add: path_key_Cons case_prod_unfold comp_def)
next
  case (3 k xs kvs p sep)
  have "dict_of ([(new_key p sep k, YList xs)] @ flatten_items kvs p sep) =
        dict_of ([(new_key p sep k, YList xs)] @
                 map (\<lambda>(path, v). (path_key p sep path, v)) (leaves kvs))"
    using refl "3.IH" by (rule dict_of_append_cong)
  then show ?case
    by (simp add: path_key_def)
next
  case (4 k x kvs p sep)
  have "dict_of ([(new_key p sep k, YLeaf x)] @ flatten_items kvs p sep) =
        dict_of ([(new_key p sep k, YLeaf x)] @
                 map (\<lambda>(path, v). (path_key p sep path, v)) (leaves kvs))"
    using refl "4.IH" by (rule dict_of_append_cong)
  then show ?case
    by (simp add: path_key_def)
qed

lemma join_Cons: "path \<noteq> [] \<Longrightarrow> join sep (k # path) = k @ sep @ join sep path"
  by (cases path) simp_all

lemma path_key_nonempty:
  "p \<noteq> [] \<Longrightarrow> path_key p sep path = join sep (p # path)"
proof (induction path arbitrary: p)
  case Nil
  then show ?case by (simp add: path_key_def)
next
  case (Cons k path)
  have "path_key p sep (k # path) = join sep ((p @ sep @ k) # path)"
    using Cons by (simp add: path_key_Cons new_key_def)
  also have "\<dots> = join sep (p # k # path)"
    by (cases path) simp_all
  finally show ?case .
qed

lemma path_key_top:
  "path \<noteq> [] \<Longrightarrow> hd path \<noteq> [] \<Longrightarrow> path_key [] sep path = join sep path"
  by (cases path) (simp_all add: path_key_Cons new_key_def path_key_nonempty)

lemma leaves_paths:
  "(path, v) \<in> set (leaves d) \<Longrightarrow> path \<noteq> [] \<and> hd path \<in> fst ` set d"
  by (induction d rule: leaves.induct) (auto simp: image_iff)

lemma leaves_not_dict: "(path, v) \<in> set (leaves d) \<Longrightarrow> \<not> is_dict v"
  by (induction d arbitrary: path rule: leaves.induct) auto

lemma flatten_dict_leaves:
  assumes "[] \<notin> fst ` set d"
  shows "flatten_dict d [] sep = dict_of (map (\<lambda>(path, v). (join sep path, v)) (leaves d))"
proof -
  have "map (\<lambda>(path, v). (path_key [] sep path, v)) (leaves d) =
        map (\<lambda>(path, v). (join sep path, v)) (leaves d)"
  proof (rule map_cong [OF refl])
    fix x assume x: "x \<in> set (leaves d)"
    obtain path v where pv: "x = (path, v)" by (cases x)
    with x leaves_paths [of path v d] have "path \<noteq> []" "hd path \<in> fst ` set d"
      by simp_all
    then have "path \<noteq> []" "hd path \<noteq> []"
      using assms by force+
    then show "(case x of (path, v) \<Rightarrow> (path_key [] sep path, v)) =
               (case x of (path, v) \<Rightarrow> (join sep path, v))"
      by (simp add: pv path_key_top)
  qed
  then show ?thesis
    unfolding flatten_dict_def dict_of_flatten_items by (rule arg_cong)
qed

lemma flatten_dict_values: "kv \<in> set (flatten_dict d p sep) \<Longrightarrow> \<not> is_dict (snd kv)"
proof -
  assume "kv \<in> set (flatten_dict d p sep)"
  then have "snd kv \<in> snd ` set (dict_of (map (\<lambda>(path, v). (path_key p sep path, v)) (leaves d)))"
    by (simp add: flatten_dict_def dict_of_flatten_items)
  then have "snd kv \<in> snd ` set (map (\<lambda>(path, v). (path_key p sep path, v)) (leaves d))"
    by (rule subsetD [OF snd_dict_of])
  then obtain path v where "(path, v) \<in> set (leaves d)" "snd kv = v"
    by auto
  then show ?thesis
    using leaves_not_dict by auto
qed

lemma map_fst_foldl_put:
  "map fst xs = map fst ys \<Longrightarrow> map fst d = map fst e \<Longrightarrow>
   map fst (foldl put d xs) = map fst (foldl put e ys)"
proof (induction xs arbitrary: ys d e)
  case Nil
  then show ?case by simp
next
  case (Cons x xs)
  then obtain y ys' where ys: "ys = y # ys'" "fst x = fst y" "map fst xs = map fst ys'"
    by (cases ys) auto
  have "map fst (dict_set (fst x) (snd x) d) = map fst (dict_set (fst y) (snd y) e)"
    using Cons.prems(2) ys(2) by (simp add: map_fst_dict_set)
  with Cons.IH [OF ys(3)] show ?case
    by (simp add: ys(1) case_prod_unfold)
qed

lemma map_fst_dict_of: "map fst xs = map fst ys \<Longrightarrow> map fst (dict_of xs) = map fst (dict_of ys)"
  unfolding dict_of_def by (rule map_fst_foldl_put) simp_all

lemma flatten_dict_list_keys:
  "map fst (flatten_dict ((k, YList xs) # kvs) p sep) =
   map fst (flatten_dict ((k, YList ys) # kvs) p sep)"
  unfolding flatten_dict_def by (rule map_fst_dict_of) simp

text \<open>
  Claim C9, as the code has it.  When no key at the top of the nested mapping is the empty
  string, \<open>flatten_dict\<close> with its default arguments is the dictionary of the leaves with
  their key paths joined by a dot, where only dictionaries are entered and a list is a
  leaf.  No value of the result is a dictionary.  The elements of a list value do not
  influence the keys of the result, hence neither the missing nor the extra keys.
\<close>

theorem flatten_dict_dotted_paths:
  "([] \<notin> fst ` set d \<longrightarrow> flatten_dict d [] ''.'' = dict_of (map dotted (leaves d))) \<and>
   (\<forall>kv \<in> set (flatten_dict d parent_key sep). \<not> is_dict (snd kv)) \<and>
   map fst (flatten_dict ((k, YList xs) # kvs) parent_key sep) =
     map fst (flatten_dict ((k, YList ys) # kvs) parent_key sep) \<and>
   missing_keys (flatten_dict ((k, YList xs) # kvs) parent_key sep) target =
     missing_keys (flatten_dict ((k, YList ys) # kvs) parent_key sep) target \<and>
   extra_keys en (flatten_dict ((k, YList xs) # kvs) parent_key sep) =
     extra_keys en (flatten_dict ((k, YList ys) # kvs) parent_key sep)"
proof -
  have keys: "map fst (flatten_dict ((k, YList xs) # kvs) parent_key sep) =
     map fst (flatten_dict ((k, YList ys) # kvs) parent_key sep)"
    by (rule flatten_dict_list_keys)
  then have "fst ` set (flatten_dict ((k, YList xs) # kvs) parent_key sep) =
     fst ` set (flatten_dict ((k, YList ys) # kvs) parent_key sep)"
    by (metis list.set_map)
  with keys have "missing_keys (flatten_dict ((k, YList xs) # kvs) parent_key sep) target =
     missing_keys (flatten_dict ((k, YList ys) # kvs) parent_key sep) target"
    and "extra_keys en (flatten_dict ((k, YList xs) # kvs) parent_key sep) =
     extra_keys en (flatten_dict ((k, YList ys) # kvs) parent_key sep)"
    unfolding missing_keys_def extra_keys_def by simp_all
  moreover have "[] \<notin> fst ` set d \<longrightarrow> flatten_dict d [] ''.'' = dict_of (map dotted (leaves d))"
    using flatten_dict_leaves [of d "''.''"] unfolding dotted_def by blast
  moreover have "\<forall>kv \<in> set (flatten_dict d parent_key sep). \<not> is_dict (snd kv)"
    using flatten_dict_values by blast
  ultimately show ?thesis
    using keys by blast
qed

theorem flatten_dict_dotted_paths_witness:
  "[] \<notin> fst ` set [(''a'', YDict [(''b'', YLeaf ''x''), (''c'', YList [YDict [(''d'', YLeaf ''y'')]])])] \<and>
   flatten_dict [(''a'', YDict [(''b'', YLeaf ''x''), (''c'', YList [YDict [(''d'', YLeaf ''y'')]])])] [] ''.'' =
     [(''a.b'', YLeaf ''x''), (''a.c'', YList [YDict [(''d'', YLeaf ''y'')]])] \<and>
   \<not> is_dict (YList [YDict [(''d'', YLeaf ''y'')]])"
  using flatten_dict_dotted_paths [of "[(''a'', YDict [(''b'', YLeaf ''x''), (''c'', YList [YDict [(''d'', YLeaf ''y'')]])])]"]
  by (simp add: dotted_def dict_of_def)

text \<open>
  Claim C9 as stated fails for an empty key at the top: \<^verbatim>\<open>if parent_key\<close> takes the
  empty key for the absence of a parent, and the key below it gets no dot.
\<close>

theorem flatten_dict_empty_key_counterexample:
  "flatten_dict [('''', YDict [(''a'', YLeaf ''x'')])] [] ''.'' = [(''a'', YLeaf ''x'')] \<and>
   dict_of (map dotted (leaves [('''', YDict [(''a'', YLeaf ''x'')])])) = [(''.a'', YLeaf ''x'')]"
  by (simp add: flatten_dict_def dict_of_def new_key_def dotted_def)

section \<open>Facts about the matcher and the two array patterns\<close>

declare sub_all.simps [simp del] re_finditer.simps [simp del]

lemma first_match_append:
  "(case xs @ ys of [] \<Rightarrow> None | x # _ \<Rightarrow> Some x) =
   (case xs of [] \<Rightarrow> (case ys of [] \<Rightarrow> None | y # _ \<Rightarrow> Some y) | x # _ \<Rightarrow> Some x)"
  by (cases xs) simp_all

lemma first_match_Nil [simp]: "first_match [] (caps, cur) s = Some (caps, s)"
  by (simp add: first_match_def)

lemma first_match_Open [simp]: "first_match (Open # ps) (caps, cur) s = first_match ps (caps, Some []) s"
  by (simp add: first_match_def)

lemma first_match_Close [simp]:
  "first_match (Close # ps) (caps, cur) s =
   first_match ps (caps @ [case cur of Some w \<Rightarrow> w | None \<Rightarrow> []], None) s"
  by (simp add: first_match_def)

lemma first_match_One_Nil [simp]: "first_match (One a # ps) st [] = None"
  by (simp add: first_match_def)

lemma first_match_One_Cons [simp]:
  "first_match (One a # ps) st (c # cs) = (if atom_ok a c then first_match ps (push c st) cs else None)"
  by (simp add: first_match_def)

lemma first_match_Star_Nil [simp]: "first_match (Star a # ps) st [] = first_match ps st []"
  by (simp add: first_match_def)

lemma first_match_Star_Cons:
  "first_match (Star a # ps) st (c # cs) =
     (case (if atom_ok a c then first_match (Star a # ps) (push c st) cs else None) of
        Some r \<Rightarrow> Some r
      | None \<Rightarrow> first_match ps st (c # cs))"
  by (auto simp: first_match_def first_match_append split: list.splits)

lemma first_match_Plus_Nil [simp]: "first_match (Plus a # ps) st [] = None"
  by (simp add: first_match_def)

lemma first_match_Plus_Cons [simp]:
  "first_match (Plus a # ps) st (c # cs) =
     (if atom_ok a c then first_match (Star a # ps) (push c st) cs else None)"
  by (simp add: first_match_def)

lemma first_match_Lazy_Nil [simp]: "first_match (Lazy a # ps) st [] = first_match ps st []"
  by (simp add: first_match_def)

lemma first_match_Lazy_Cons:
  "first_match (Lazy a # ps) st (c # cs) =
     (case first_match ps st (c # cs) of
        Some r \<Rightarrow> Some r
      | None \<Rightarrow> if atom_ok a c then first_match (Lazy a # ps) (push c st) cs else None)"
  by (auto simp: first_match_def first_match_append split: list.splits)

lemma pushes_Nil [simp]: "pushes [] st = st"
  by (cases st) (simp add: option.map_ident)

lemma pushes_Cons: "pushes (c # w) st = pushes w (push c st)"
  by (cases st) (simp add: option.map_comp comp_def)

lemma pushes_append: "pushes (v @ w) st = pushes w (pushes v st)"
  by (cases st) (simp add: option.map_comp comp_def)

lemma pushes_snoc: "pushes (w @ [c]) st = push c (pushes w st)"
  by (cases st) (simp add: option.map_comp comp_def)

lemma first_match_lit:
  "first_match (lit l @ ps) st s =
   (if prefix l s then first_match ps (pushes l st) (drop (length l) s) else None)"
proof (induction l arbitrary: st s)
  case Nil
  then show ?case by (simp add: lit_def)
next
  case (Cons a l)
  have "lit (a # l) @ ps = One (Ch a) # lit l @ ps"
    by (simp add: lit_def)
  then show ?case
    using Cons [of "push a st"] by (cases s) (auto simp: pushes_Cons)
qed

lemma match_here_first:
  "match_here ps s =
   map_option (\<lambda>(caps, rest). (take (length s - length rest) s # caps, rest))
     (first_match ps ([], None) s)"
  by (simp add: match_here_def first_match_def split: list.splits)

lemma split_first_Some:
  "sep \<noteq> [] \<Longrightarrow> split_first sep s = Some (a, b) \<Longrightarrow> s = a @ sep @ b"
proof (induction s arbitrary: a)
  case Nil
  then show ?case by simp
next
  case (Cons c cs)
  show ?case
  proof (cases "prefix sep (c # cs)")
    case True
    with Cons.prems have ab: "a = []" "b = drop (length sep) (c # cs)"
      by simp_all
    from True have "c # cs = sep @ drop (length sep) (c # cs)"
      by (metis append_eq_conv_conj prefix_def)
    with ab show ?thesis by simp
  next
    case False
    with Cons.prems obtain a' where "split_first sep cs = Some (a', b)" "a = c # a'"
      by auto
    with Cons.IH [of a'] Cons.prems(1) show ?thesis by simp
  qed
qed

lemma split_first_None: "sep \<noteq> [] \<Longrightarrow> split_first sep s = None \<longleftrightarrow> \<not> sublist sep s"
  by (induction s) (auto simp: sublist_Cons_right)

lemma first_match_lazy_any:
  assumes tail: "\<And>st s. first_match qs st s =
                   (if prefix L s then Some (f st, drop (length L) s) else None)"
    and L: "L \<noteq> []"
  shows "first_match (Lazy AnyCh # qs) st s =
         map_option (\<lambda>(body, post). (f (pushes body st), post)) (split_first L s)"
proof (induction s arbitrary: st)
  case Nil
  then show ?case using L by (simp add: tail)
next
  case (Cons c cs)
  show ?case
  proof (cases "prefix L (c # cs)")
    case True
    then show ?thesis by (simp add: first_match_Lazy_Cons tail)
  next
    case False
    then show ?thesis
      by (simp add: first_match_Lazy_Cons tail Cons.IH option.map_comp comp_def case_prod_unfold
          pushes_Cons)
  qed
qed

lemma MARKER_nonempty [simp]: "MARKER \<noteq> []" and CLOSER_nonempty [simp]: "CLOSER \<noteq> []"
  by (simp_all add: MARKER_def CLOSER_def)

lemma first_match_array_tail:
  "first_match (Close # lit CLOSER) st s =
   (if prefix CLOSER s
    then Some (fst st @ [case snd st of Some w \<Rightarrow> w | None \<Rightarrow> []], drop (length CLOSER) s)
    else None)"
  using first_match_lit [of CLOSER "[]"] by (cases st) simp

lemma first_match_array:
  "first_match array_pattern ([], None) s =
   (if prefix MARKER s
    then map_option (\<lambda>(body, post). ([body], post)) (split_first CLOSER (drop (length MARKER) s))
    else None)"
proof -
  have "first_match (Lazy AnyCh # Close # lit CLOSER) ([], Some []) t =
        map_option (\<lambda>(body, post). ([body], post)) (split_first CLOSER t)" for t
    by (subst first_match_lazy_any [OF first_match_array_tail]) simp_all
  then show ?thesis
    by (simp add: array_pattern_def first_match_lit)
qed

lemma first_match_sub_tail:
  "first_match ([Close, Open] @ lit CLOSER @ [Close]) st s =
   (if prefix CLOSER s
    then Some (fst st @ [case snd st of Some w \<Rightarrow> w | None \<Rightarrow> []] @ [CLOSER],
               drop (length CLOSER) s)
    else None)"
  by (cases st) (simp add: first_match_lit)

lemma first_match_sub:
  "first_match sub_pattern ([], None) s =
   (if prefix MARKER s
    then map_option (\<lambda>(body, post). ([MARKER, body, CLOSER], post))
           (split_first CLOSER (drop (length MARKER) s))
    else None)"
proof -
  have "first_match (Lazy AnyCh # [Close, Open] @ lit CLOSER @ [Close]) ([MARKER], Some []) t =
        map_option (\<lambda>(body, post). ([MARKER, body, CLOSER], post)) (split_first CLOSER t)" for t
    by (subst first_match_lazy_any [OF first_match_sub_tail]) simp_all
  then show ?thesis
    by (simp add: sub_pattern_def first_match_lit)
qed

lemma whole_match:
  assumes "prefix MARKER s" and "split_first CLOSER (drop (length MARKER) s) = Some (body, post)"
  shows "take (length s - length post) s = MARKER @ body @ CLOSER"
proof -
  from assms(1) have "s = MARKER @ drop (length MARKER) s"
    by (metis append_eq_conv_conj prefix_def)
  moreover from assms(2) have "drop (length MARKER) s = body @ CLOSER @ post"
    by (rule split_first_Some [OF CLOSER_nonempty])
  ultimately have "s = (MARKER @ body @ CLOSER) @ post"
    by simp
  then show ?thesis
    by (metis add_diff_cancel_right' append_eq_conv_conj length_append)
qed

lemma match_here_array:
  "match_here array_pattern s =
   (if prefix MARKER s
    then map_option (\<lambda>(body, post). ([MARKER @ body @ CLOSER, body], post))
           (split_first CLOSER (drop (length MARKER) s))
    else None)"
proof (cases "prefix MARKER s")
  case False
  then show ?thesis by (simp add: match_here_first first_match_array)
next
  case True
  show ?thesis
  proof (cases "split_first CLOSER (drop (length MARKER) s)")
    case None
    with True show ?thesis by (simp add: match_here_first first_match_array)
  next
    case (Some r)
    obtain body post where r: "r = (body, post)" by (cases r)
    with True Some whole_match [of s body post] show ?thesis
      by (simp add: match_here_first first_match_array)
  qed
qed

lemma match_here_sub:
  "match_here sub_pattern s =
   (if prefix MARKER s
    then map_option (\<lambda>(body, post). ([MARKER @ body @ CLOSER, MARKER, body, CLOSER], post))
           (split_first CLOSER (drop (length MARKER) s))
    else None)"
proof (cases "prefix MARKER s")
  case False
  then show ?thesis by (simp add: match_here_first first_match_sub)
next
  case True
  show ?thesis
  proof (cases "split_first CLOSER (drop (length MARKER) s)")
    case None
    with True show ?thesis by (simp add: match_here_first first_match_sub)
  next
    case (Some r)
    obtain body post where r: "r = (body, post)" by (cases r)
    with True Some whole_match [of s body post] show ?thesis
      by (simp add: match_here_first first_match_sub)
  qed
qed

lemma split_first_suffix_None:
  assumes "sep \<noteq> []" "split_first sep s = None" "suffix t s"
  shows "split_first sep t = None"
proof -
  from assms(1,2) have "\<not> sublist sep s" by (simp add: split_first_None)
  with assms(3) have "\<not> sublist sep t"
    by (meson sublist_order.order_trans suffix_imp_sublist)
  with assms(1) show ?thesis by (simp add: split_first_None)
qed

lemma re_search_two_literals:
  assumes here: "\<And>s. match_here ps s =
                   (if prefix M s
                    then map_option (\<lambda>(body, post). (g body, post)) (split_first L (drop (length M) s))
                    else None)"
    and M: "M \<noteq> []" and L: "L \<noteq> []"
  shows "re_search ps s =
         (case split_first M s of
            None \<Rightarrow> None
          | Some (lead, rest) \<Rightarrow>
              (case split_first L rest of
                 None \<Rightarrow> None
               | Some (body, post) \<Rightarrow> Some (lead, g body, post)))"
proof (induction s)
  case Nil
  then show ?case using M by (simp add: here)
next
  case (Cons c cs)
  show ?case
  proof (cases "prefix M (c # cs)")
    case False
    then show ?thesis
      by (simp add: here Cons.IH split: option.splits)
  next
    case True
    show ?thesis
    proof (cases "split_first L (drop (length M) (c # cs))")
      case (Some r)
      with True show ?thesis by (simp add: here split: prod.splits)
    next
      case None
      have "(case split_first M cs of
            None \<Rightarrow> None
          | Some (lead, rest) \<Rightarrow>
              (case split_first L rest of
                 None \<Rightarrow> None
               | Some (body, post) \<Rightarrow> Some (lead, g body, post))) = None"
      proof (cases "split_first M cs")
        case None
        then show ?thesis by simp
      next
        case (Some r)
        obtain lead rest where r: "r = (lead, rest)" by (cases r)
        with Some have cs: "cs = lead @ M @ rest"
          using split_first_Some [OF M] by simp
        have "drop (length M) (((c # lead) @ M) @ rest) = drop (length M) ((c # lead) @ M) @ rest"
          by (simp del: append_assoc append.simps)
        then have "drop (length M) (c # cs) = drop (length M) ((c # lead) @ M) @ rest"
          by (simp add: cs)
        then have "suffix rest (drop (length M) (c # cs))"
          by (simp add: suffix_def)
        with None have "split_first L rest = None"
          using split_first_suffix_None [OF L] by blast
        with Some r show ?thesis by simp
      qed
      with True None Cons.IH show ?thesis
        by (simp add: here)
    qed
  qed
qed

lemmas re_search_array = re_search_two_literals [OF match_here_array MARKER_nonempty CLOSER_nonempty]
lemmas re_search_sub = re_search_two_literals [OF match_here_sub MARKER_nonempty CLOSER_nonempty]

lemma re_result_simps [simp]:
  "re_result (Inl ReError)" "re_result (Inl IndexError)" "re_result (Inr x)"
  by (simp_all add: re_result_def)

lemma re_result_then_items: "re_result r \<Longrightarrow> re_result (then_items xs r)"
  by (cases r) (simp_all add: then_items_def re_result_def)

lemma re_result_add_group: "re_result r \<Longrightarrow> re_result (add_group n i r)"
  by (simp add: add_group_def re_result_then_items)

lemma re_result_if:
  "(c \<Longrightarrow> re_result a) \<Longrightarrow> (\<not> c \<Longrightarrow> re_result b) \<Longrightarrow> re_result (if c then a else b)"
  by simp

lemma re_result_case_list:
  "(xs = [] \<Longrightarrow> re_result a) \<Longrightarrow> (\<And>y ys. xs = y # ys \<Longrightarrow> re_result (f y ys)) \<Longrightarrow>
   re_result (case xs of [] \<Rightarrow> a | y # ys \<Rightarrow> f y ys)"
  by (cases xs) simp_all

lemma re_result_case_option:
  "(x = None \<Longrightarrow> re_result a) \<Longrightarrow> (\<And>y. x = Some y \<Longrightarrow> re_result (f y)) \<Longrightarrow>
   re_result (case x of None \<Rightarrow> a | Some y \<Rightarrow> f y)"
  by (cases x) simp_all

lemma re_result_parse_template: "re_result (parse_template n s)"
proof (induction "length s" arbitrary: s rule: less_induct)
  case less
  show ?case
  proof (cases s)
    case Nil
    then show ?thesis by simp
  next
    case s: (Cons c s1)
    show ?thesis
    proof (cases s1)
      case Nil
      with s show ?thesis by simp
    next
      case (Cons d rest)
      have IH: "re_result (parse_template n x)" if "length x \<le> Suc (length rest)" for x
        using that less [of x] s Cons by simp
      have drop: "length (tl (dropWhile P after)) \<le> Suc (length rest)"
        if "rest = lt # after" for P lt and after :: string
        using that length_dropWhile_le [of P after] by simp
      show ?thesis
        unfolding s Cons
        apply (subst parse_template.simps(3))
        apply (simp only: Let_def)
        apply (intro re_result_if re_result_case_list re_result_case_option re_result_then_items
            re_result_add_group re_result_simps)
                 apply (rule IH, simp)
                apply (rule IH, erule drop)
               apply (rule IH, simp)+
        done
    qed
  qed
qed

lemma parse_template_errors:
  "parse_template n s = Inl e \<Longrightarrow> e = ReError \<or> e = IndexError"
  using re_result_parse_template [of n s] by (simp add: re_result_def)

section \<open>Locating and parsing the array\<close>

lemma parse_announcements_split:
  "parse_announcements doc =
   (case split_first MARKER doc of
      None \<Rightarrow> Inl (ValueError NOT_FOUND)
    | Some (lead, rest) \<Rightarrow>
        (case split_first CLOSER rest of
           None \<Rightarrow> Inl (ValueError NOT_FOUND)
         | Some (body, post) \<Rightarrow>
             Inr (map announcement_of (re_finditer ann_pattern body),
                  count_newlines lead + 1,
                  count_newlines (lead @ MARKER @ body @ CLOSER) + 1)))"
proof (cases "split_first MARKER doc")
  case None
  then show ?thesis by (simp add: parse_announcements_def re_search_array)
next
  case (Some r)
  obtain lead rest where r: "r = (lead, rest)" by (cases r)
  show ?thesis
  proof (cases "split_first CLOSER rest")
    case None
    with Some r show ?thesis by (simp add: parse_announcements_def re_search_array)
  next
    case (Some q)
    obtain body post where q: "q = (body, post)" by (cases q)
    from \<open>split_first MARKER doc = Some r\<close> r have "doc = lead @ MARKER @ rest"
      using split_first_Some [OF MARKER_nonempty] by simp
    moreover from Some q have "rest = body @ CLOSER @ post"
      using split_first_Some [OF CLOSER_nonempty] by simp
    ultimately have "doc = (lead @ MARKER @ body @ CLOSER) @ post"
      by simp
    then have "take (length doc - length post) doc = lead @ MARKER @ body @ CLOSER"
      by (metis add_diff_cancel_right' append_eq_conv_conj length_append)
    with \<open>split_first MARKER doc = Some r\<close> r Some q show ?thesis
      by (simp add: parse_announcements_def re_search_array)
  qed
qed

lemma re_sub_errors: "re_sub ps repl s = Inl e \<Longrightarrow> e = ReError \<or> e = IndexError"
  by (auto simp: re_sub_def parse_template_errors split: sum.splits)

text \<open>
  Claim C6, as the code has it.  A document without the marker, and a document in which
  the text after the first marker has no \<^verbatim>\<open>];\<close>, both make \<open>update_announcement\<close> raise
  the one \<^verbatim>\<open>ValueError\<close> of \<open>parse_announcements\<close>, with nothing printed and no new
  document; and a \<^verbatim>\<open>ValueError\<close> has no other cause.  The code has a single error for
  the two cases.
\<close>

theorem locate_array_failures:
  "(\<not> contains MARKER doc \<longrightarrow>
      update_announcement doc v t c = ([], Inl (ValueError NOT_FOUND))) \<and>
   (split_first MARKER doc = Some (lead, rest) \<and> \<not> contains CLOSER rest \<longrightarrow>
      update_announcement doc v t c = ([], Inl (ValueError NOT_FOUND))) \<and>
   (snd (update_announcement doc v t c) = Inl (ValueError m) \<longrightarrow>
      m = NOT_FOUND \<and> fst (update_announcement doc v t c) = [] \<and>
      (\<not> contains MARKER doc \<or>
       (\<exists>lead rest. split_first MARKER doc = Some (lead, rest) \<and> \<not> contains CLOSER rest)))"
proof (intro conjI impI)
  assume "\<not> contains MARKER doc"
  then have "split_first MARKER doc = None"
    by (simp add: contains_sublist split_first_None)
  then show "update_announcement doc v t c = ([], Inl (ValueError NOT_FOUND))"
    by (simp add: update_announcement_def parse_announcements_split)
next
  assume "split_first MARKER doc = Some (lead, rest) \<and> \<not> contains CLOSER rest"
  then have "split_first MARKER doc = Some (lead, rest)" "split_first CLOSER rest = None"
    by (simp_all add: contains_sublist split_first_None)
  then show "update_announcement doc v t c = ([], Inl (ValueError NOT_FOUND))"
    by (simp add: update_announcement_def parse_announcements_split)
next
  assume err: "snd (update_announcement doc v t c) = Inl (ValueError m)"
  have parse: "parse_announcements doc = Inl (ValueError NOT_FOUND)"
  proof (cases "parse_announcements doc")
    case (Inl e)
    then show ?thesis
      by (auto simp: parse_announcements_split split: option.splits)
  next
    case (Inr r)
    obtain anns sl el where "r = (anns, sl, el)" by (cases r)
    with Inr err have "re_sub sub_pattern (replacement (array_lines (fst (upsert anns v t c)))) doc =
        Inl (ValueError m)"
      by (simp add: update_announcement_def split: prod.splits)
    with re_sub_errors show ?thesis by blast
  qed
  with err show "m = NOT_FOUND" and "fst (update_announcement doc v t c) = []"
    by (simp_all add: update_announcement_def)
  from parse show "\<not> contains MARKER doc \<or>
       (\<exists>lead rest. split_first MARKER doc = Some (lead, rest) \<and> \<not> contains CLOSER rest)"
    by (auto simp: parse_announcements_split contains_sublist split_first_None
        split: option.splits)
qed

theorem locate_array_failures_witness:
  "\<not> contains MARKER ''fn main() {}'' \<and>
   update_announcement ''fn main() {}'' ''1'' ''t'' ''c'' = ([], Inl (ValueError NOT_FOUND)) \<and>
   split_first MARKER (''// '' @ MARKER @ '' x ]'') = Some (''// '', '' x ]'') \<and>
   \<not> contains CLOSER '' x ]'' \<and>
   update_announcement (''// '' @ MARKER @ '' x ]'') ''1'' ''t'' ''c'' =
     ([], Inl (ValueError NOT_FOUND))"
  using locate_array_failures [of "''fn main() {}''" "''1''" "''t''" "''c''"]
    locate_array_failures [of "''// '' @ MARKER @ '' x ]''" "''1''" "''t''" "''c''" "''// ''" "'' x ]''"]
  by (simp add: MARKER_def CLOSER_def)

text \<open>
  Claim C6 as stated fails: a document whose marker is never closed gets the very error
  of a document without a marker.
\<close>

theorem unterminated_array_counterexample:
  "split_first MARKER (MARKER @ '' x ]'') = Some ([], '' x ]'') \<and>
   split_first CLOSER '' x ]'' = None \<and>
   snd (update_announcement (MARKER @ '' x ]'') ''1'' ''t'' ''c'') = Inl (ValueError NOT_FOUND) \<and>
   snd (update_announcement ''fn main() {}'' ''1'' ''t'' ''c'') = Inl (ValueError NOT_FOUND)"
  by (simp add: update_announcement_def parse_announcements_split MARKER_def CLOSER_def)

lemma re_search_lit_absent:
  "\<not> sublist l s \<Longrightarrow> l \<noteq> [] \<Longrightarrow> re_search (lit l @ ps) s = None"
proof (induction s)
  case Nil
  then show ?case by (simp add: match_here_first first_match_lit)
next
  case (Cons c cs)
  then have "\<not> prefix l (c # cs)" "\<not> sublist l cs"
    by (auto simp: sublist_Cons_right)
  with Cons show ?case by (simp add: match_here_first first_match_lit)
qed

text \<open>
  Claim C2, as the code has it.  Once the array is located, \<open>parse_announcements\<close>
  succeeds whatever the body contains: its announcements are the decoded matches of
  \<open>ann_pattern\<close> that \<^verbatim>\<open>finditer\<close> finds, text that matches nowhere contributes nothing,
  and a body without the word \<^verbatim>\<open>VersionAnnouncement\<close> gives no announcement.  The only
  failure of \<open>parse_announcements\<close> is the \<^verbatim>\<open>ValueError\<close> of an array that is not
  found, and then \<open>update_announcement\<close> prints nothing and returns no document.
\<close>

theorem parse_skips_undecodable_blocks:
  "(split_first MARKER doc = Some (lead, rest) \<and> split_first CLOSER rest = Some (body, post) \<longrightarrow>
      parse_announcements doc =
        Inr (map announcement_of (re_finditer ann_pattern body),
             count_newlines lead + 1, count_newlines (lead @ MARKER @ body @ CLOSER) + 1) \<and>
      (\<not> contains ''VersionAnnouncement'' body \<longrightarrow> re_finditer ann_pattern body = [])) \<and>
   (parse_announcements doc = Inl e \<longrightarrow>
      e = ValueError NOT_FOUND \<and> re_search array_pattern doc = None \<and>
      update_announcement doc v t c = ([], Inl e))"
proof (intro conjI impI)
  assume "split_first MARKER doc = Some (lead, rest) \<and> split_first CLOSER rest = Some (body, post)"
  then show "parse_announcements doc =
        Inr (map announcement_of (re_finditer ann_pattern body),
             count_newlines lead + 1, count_newlines (lead @ MARKER @ body @ CLOSER) + 1)"
    by (simp add: parse_announcements_split)
next
  assume "\<not> contains ''VersionAnnouncement'' body"
  then have "re_search ann_pattern body = None"
    unfolding ann_pattern_def by (intro re_search_lit_absent) (simp_all add: contains_sublist)
  then show "re_finditer ann_pattern body = []"
    by (subst re_finditer.simps) simp
next
  assume e: "parse_announcements doc = Inl e"
  then show "e = ValueError NOT_FOUND"
    by (auto simp: parse_announcements_split split: option.splits)
  from e show "re_search array_pattern doc = None"
    by (auto simp: parse_announcements_def Let_def split: option.splits)
  from e show "update_announcement doc v t c = ([], Inl e)"
    by (simp add: update_announcement_def)
qed

theorem parse_skips_undecodable_blocks_witness:
  "split_first MARKER bad_doc = Some ([], bad_block @ CLOSER) \<and>
   split_first CLOSER (bad_block @ CLOSER) = Some (bad_block, []) \<and>
   parse_announcements bad_doc = Inr ([], 1, 1) \<and>
   parse_announcements ''fn main() {}'' = Inl (ValueError NOT_FOUND) \<and>
   update_announcement ''fn main() {}'' ''1'' ''t'' ''c'' = ([], Inl (ValueError NOT_FOUND))"
proof -
  have h1: "split_first MARKER bad_doc = Some ([], bad_block @ CLOSER)"
    by code_simp
  have h2: "split_first CLOSER (bad_block @ CLOSER) = Some (bad_block, [])"
    by code_simp
  have h3: "re_finditer ann_pattern bad_block = []"
    by code_simp
  have h4: "parse_announcements ''fn main() {}'' = Inl (ValueError NOT_FOUND)"
    by code_simp
  have h5: "count_newlines ([] @ MARKER @ bad_block @ CLOSER) + 1 = 1"
    by code_simp
  have h6: "count_newlines [] + 1 = 1"
    by code_simp
  have "parse_announcements bad_doc =
        Inr (map announcement_of (re_finditer ann_pattern bad_block),
             count_newlines [] + 1, count_newlines ([] @ MARKER @ bad_block @ CLOSER) + 1)"
    using parse_skips_undecodable_blocks [of bad_doc "[]" "bad_block @ CLOSER" bad_block "[]"]
      h1 h2 by blast
  then have a: "parse_announcements bad_doc = Inr ([], 1, 1)"
    by (simp only: h3 h5 h6 list.map)
  have b: "update_announcement ''fn main() {}'' ''1'' ''t'' ''c'' = ([], Inl (ValueError NOT_FOUND))"
    using parse_skips_undecodable_blocks [of "''fn main() {}''" "[]" "[]" "[]" "[]"
        "ValueError NOT_FOUND" "''1''" "''t''" "''c''"] h4 by blast
  from h1 h2 a h4 b show ?thesis
    by blast
qed

text \<open>
  Claim C2 as stated fails: \<open>bad_doc\<close> holds a block that cannot be decoded, and
  \<open>update_announcement\<close> returns a new document in which that block is gone.
\<close>

theorem undecodable_block_dropped_counterexample:
  "update_announcement bad_doc ''0.6.0'' ''t'' ''c'' =
     ([Adding_new ''0.6.0''],
      Inr (MARKER @ [NL] @ HEADER @ [NL] @ block_text ''0.6.0'' ''t'' ''c'' @ [NL] @ CLOSER))"
  by code_simp

section \<open>The template of the replacement\<close>

lemma ends_group3_Inl [simp]: "ends_group3 (Inl e)"
  by (simp add: ends_group3_def)

lemma ends_group3_then_items: "ends_group3 r \<Longrightarrow> ends_group3 (then_items xs r)"
  by (cases r) (auto simp: then_items_def ends_group3_def)

lemma ends_group3_add_group: "ends_group3 r \<Longrightarrow> ends_group3 (add_group n i r)"
  by (simp add: add_group_def ends_group3_then_items)

lemma ends_group3_if:
  "(c \<Longrightarrow> ends_group3 a) \<Longrightarrow> (\<not> c \<Longrightarrow> ends_group3 b) \<Longrightarrow> ends_group3 (if c then a else b)"
  by simp

lemma ends_group3_case_list:
  "(xs = [] \<Longrightarrow> ends_group3 a) \<Longrightarrow> (\<And>y ys. xs = y # ys \<Longrightarrow> ends_group3 (f y ys)) \<Longrightarrow>
   ends_group3 (case xs of [] \<Rightarrow> a | y # ys \<Rightarrow> f y ys)"
  by (cases xs) simp_all

lemma ends_group3_case_option:
  "(x = None \<Longrightarrow> ends_group3 a) \<Longrightarrow> (\<And>y. x = Some y \<Longrightarrow> ends_group3 (f y)) \<Longrightarrow>
   ends_group3 (case x of None \<Rightarrow> a | Some y \<Rightarrow> f y)"
  by (cases x) simp_all

lemma suffix3_Cons:
  "suffix [a, b, c] (x # xs) \<longleftrightarrow> (x # xs = [a, b, c] \<or> suffix [a, b, c] xs)"
  by (auto simp: suffix_Cons)

lemma group3_tail_Cons:
  "group3_tail (x # xs) \<longleftrightarrow>
   (x = BSL \<and> xs = [CHR ''3'']) \<or> (x = NL \<and> xs = [BSL, CHR ''3'']) \<or> suffix [NL, BSL, CHR ''3''] xs"
  by (auto simp: group3_tail_def suffix_Cons)

lemma suffix3_simps [simp]:
  "\<not> suffix [a, b, c] []" "\<not> suffix [a, b, c] [x]" "\<not> suffix [a, b, c] [x, y]"
  by (auto simp: suffix_Cons)

lemma suffix_after_sep:
  assumes "suffix t (w @ a # z)" "a \<notin> set t"
  shows "suffix t z"
proof -
  from assms(1) obtain p where p: "w @ a # z = p @ t"
    by (auto simp: suffix_def)
  then show ?thesis
  proof (cases "length t \<le> length z")
    case True
    with p show ?thesis
      by (metis append.assoc append_Cons suffix_appendI suffix_def suffix_length_suffix
          suffix_order.order_refl)
  next
    case False
    then have "suffix (a # z) t"
      using p by (metis Suc_leI length_Cons not_le suffix_appendI suffix_def suffix_length_suffix suffix_order.order_refl)
    then have "a \<in> set t"
      by (auto simp: suffix_def)
    with assms(2) show ?thesis by simp
  qed
qed

lemma digit_not_NL: "is_digit e \<Longrightarrow> e \<noteq> NL" "is_octdigit e \<Longrightarrow> e \<noteq> NL"
  by (auto simp: is_digit_def is_octdigit_def)

lemma is_digit_3: "is_digit d \<Longrightarrow> d \<noteq> CHR ''0'' \<Longrightarrow> d = CHR ''3'' \<or> d \<noteq> CHR ''3''"
  by simp

lemma tail_drop:
  "group3_tail (a # x) \<Longrightarrow> a \<noteq> NL \<Longrightarrow> x \<noteq> [CHR ''3''] \<Longrightarrow> suffix [NL, BSL, CHR ''3''] x"
  by (auto simp: group3_tail_Cons)

lemma suffix_drop: "suffix [NL, BSL, CHR ''3''] (a # x) \<Longrightarrow> a \<noteq> NL \<Longrightarrow> suffix [NL, BSL, CHR ''3''] x"
  by (auto simp: suffix3_Cons)

lemma suffix_tail: "suffix [NL, BSL, CHR ''3''] x \<Longrightarrow> group3_tail x"
  by (simp add: group3_tail_def)

lemma add_group_3: "ends_group3 (add_group n (digit_val (CHR ''3'')) (Inr []))"
  by (simp add: add_group_def then_items_def ends_group3_def digit_val_def)

lemma ends_group3_parse_template: "group3_tail s \<Longrightarrow> ends_group3 (parse_template n s)"
proof (induction "length s" arbitrary: s rule: less_induct)
  case less
  show ?case
  proof (cases s)
    case Nil
    with less.prems show ?thesis by (simp add: group3_tail_def)
  next
    case s: (Cons c s1)
    show ?thesis
    proof (cases s1)
      case Nil
      with s less.prems show ?thesis by (simp add: group3_tail_def)
    next
      case (Cons d rest)
      have IH: "ends_group3 (parse_template n x)"
        if "group3_tail x" "length x \<le> Suc (length rest)" for x
        using that less.hyps [of x] s Cons by simp
      have tail: "group3_tail (c # d # rest)"
        using less.prems s Cons by simp
      show ?thesis
        unfolding s Cons
        apply (subst parse_template.simps(3))
        apply (simp only: Let_def)
        apply (intro ends_group3_if ends_group3_case_list ends_group3_case_option
            ends_group3_then_items ends_group3_Inl)
        subgoal using tail by (auto intro!: IH simp: group3_tail_Cons suffix3_Cons group3_tail_def)
        subgoal premises p for lt after
        proof -
          let ?P = "\<lambda>x. x \<noteq> CHR ''>''"
          have "suffix [NL, BSL, CHR ''3''] (d # lt # after)"
            using tail p(1-3) by (auto simp: group3_tail_Cons)
          then have suf: "suffix [NL, BSL, CHR ''3''] after"
            using p(1,2,4) by (auto simp: suffix3_Cons)
          from p(5) have ne: "dropWhile ?P after \<noteq> []"
            by simp
          then have "hd (dropWhile ?P after) = CHR ''>''"
            using hd_dropWhile [of ?P after] by simp
          with ne obtain z where z: "dropWhile ?P after = CHR ''>'' # z"
            by (cases "dropWhile ?P after") auto
          have "after = takeWhile ?P after @ CHR ''>'' # z"
            using takeWhile_dropWhile_id [of ?P after] z by simp
          with suf have "suffix [NL, BSL, CHR ''3''] (takeWhile ?P after @ CHR ''>'' # z)"
            by simp
          then have "suffix [NL, BSL, CHR ''3''] z"
            by (rule suffix_after_sep) simp
          moreover have "length z \<le> Suc (length rest)"
            using length_dropWhile_le [of ?P after] z p(3) by simp
          ultimately have "ends_group3 (parse_template n z)"
            by (intro IH suffix_tail)
          then show ?thesis
            by (simp add: z ends_group3_add_group)
        qed
        subgoal using tail by (auto simp: group3_tail_Cons)
        subgoal using tail by (auto simp: group3_tail_Cons suffix3_Cons)
        subgoal using tail by (auto intro!: IH suffix_tail dest: digit_not_NL simp: group3_tail_Cons suffix3_Cons)
        subgoal using tail by (auto intro!: IH suffix_tail dest: digit_not_NL simp: group3_tail_Cons suffix3_Cons)
        subgoal using tail by (auto intro!: IH suffix_tail dest: digit_not_NL simp: group3_tail_Cons suffix3_Cons)
        subgoal using tail by (auto intro!: add_group_3 simp: group3_tail_Cons)
        subgoal using tail by (auto simp: group3_tail_Cons suffix3_Cons)
        subgoal using tail by (auto intro!: IH suffix_tail dest: digit_not_NL simp: group3_tail_Cons suffix3_Cons)
        subgoal using tail by (auto intro!: ends_group3_add_group IH suffix_tail dest: digit_not_NL simp: group3_tail_Cons suffix3_Cons)
        subgoal using tail by (auto intro!: ends_group3_add_group IH suffix_tail dest: digit_not_NL simp: group3_tail_Cons suffix3_Cons)
        subgoal premises p
        proof -
          from p have "d \<noteq> CHR ''3''"
            by (auto simp: is_digit_def)
          with tail p(1) have "group3_tail rest"
            by (auto simp: group3_tail_Cons suffix3_Cons) (simp add: group3_tail_def)
          then show ?thesis
            by (rule IH) simp
        qed
        subgoal premises p
        proof -
          from p have "d \<noteq> CHR ''3''"
            by (auto simp: is_digit_def)
          with tail p(1) have "group3_tail rest"
            by (auto simp: group3_tail_Cons suffix3_Cons) (simp add: group3_tail_def)
          then show ?thesis
            by (rule IH) simp
        qed
        done
    qed
  qed
qed

lemma parse_template_group1_newline:
  "parse_template n (BSL # CHR ''1'' # BSL # CHR ''n'' # t) =
   add_group n 1 (then_items [TLit NL] (parse_template n t))"
proof -
  have "parse_template n (BSL # CHR ''n'' # t) = then_items [TLit NL] (parse_template n t)"
    by (subst parse_template.simps(3)) (simp add: is_digit_def char_escape_def)
  then show ?thesis
    by (subst parse_template.simps(3)) (simp add: is_digit_def digit_val_def)
qed

lemma parse_replacement:
  assumes "parse_template n (replacement lines) = Inr items"
  shows "\<exists>mid. items = TGroup 1 # TLit NL # mid @ [TGroup 3]"
proof -
  let ?t = "join [NL] lines @ [NL, BSL, CHR ''3'']"
  have repl: "replacement lines = BSL # CHR ''1'' # BSL # CHR ''n'' # ?t"
    by (simp add: replacement_def)
  have "group3_tail ?t"
    by (simp add: group3_tail_def suffix_def)
  then have e: "ends_group3 (parse_template n ?t)"
    by (rule ends_group3_parse_template)
  from assms have "add_group n 1 (then_items [TLit NL] (parse_template n ?t)) = Inr items"
    by (simp only: repl parse_template_group1_newline)
  then obtain rest where "parse_template n ?t = Inr rest" "items = TGroup 1 # TLit NL # rest"
    by (auto simp: add_group_def then_items_def split: if_splits sum.splits)
  with e show ?thesis
    by (auto simp: ends_group3_def)
qed

lemma ngroups_sub_pattern: "ngroups sub_pattern = 3"
  by (simp add: ngroups_def sub_pattern_def lit_def filter_map comp_def)

lemma sub_all_no_marker: "\<not> contains MARKER s \<Longrightarrow> sub_all sub_pattern items s = s"
proof -
  assume "\<not> contains MARKER s"
  then have "split_first MARKER s = None"
    by (simp add: contains_sublist split_first_None)
  then have "re_search sub_pattern s = None"
    by (simp add: re_search_sub)
  then show ?thesis
    by (subst sub_all.simps) simp
qed

lemma sub_all_located:
  assumes "split_first MARKER doc = Some (lead, rest)" "split_first CLOSER rest = Some (body, post)"
  shows "sub_all sub_pattern items doc =
         lead @ expand items [MARKER @ body @ CLOSER, MARKER, body, CLOSER] @
         sub_all sub_pattern items post"
proof -
  from assms have "doc = lead @ MARKER @ body @ CLOSER @ post"
    using split_first_Some [OF MARKER_nonempty] split_first_Some [OF CLOSER_nonempty] by blast
  then have "length post < length doc"
    by simp
  with assms show ?thesis
    by (subst sub_all.simps) (simp add: re_search_sub)
qed

lemma update_announcement_located:
  assumes "split_first MARKER doc = Some (lead, rest)" "split_first CLOSER rest = Some (body, post)"
    and "snd (update_announcement doc v t c) = Inr new_doc"
  shows "\<exists>mid items. new_doc =
           lead @ MARKER @ [NL] @ expand mid [MARKER @ body @ CLOSER, MARKER, body, CLOSER] @
           CLOSER @ sub_all sub_pattern items post"
proof -
  from assms(1,2) obtain anns sl el where "parse_announcements doc = Inr (anns, sl, el)"
    by (simp add: parse_announcements_split)
  with assms(3) obtain lines where "re_sub sub_pattern (replacement lines) doc = Inr new_doc"
    by (auto simp: update_announcement_def split: prod.splits)
  then obtain items where items: "parse_template 3 (replacement lines) = Inr items"
    and new: "new_doc = sub_all sub_pattern items doc"
    by (auto simp: re_sub_def ngroups_sub_pattern split: sum.splits)
  from items obtain mid where mid: "items = TGroup 1 # TLit NL # mid @ [TGroup 3]"
    using parse_replacement by blast
  have "expand items [MARKER @ body @ CLOSER, MARKER, body, CLOSER] =
        MARKER @ [NL] @ expand mid [MARKER @ body @ CLOSER, MARKER, body, CLOSER] @ CLOSER"
    by (simp add: mid expand_def)
  with new sub_all_located [OF assms(1,2), of items] show ?thesis
    by auto
qed

lemma then_items_Inr [simp]: "then_items xs (Inr ys) = Inr (xs @ ys)"
  by (simp add: then_items_def)

lemma parse_template_text:
  "BSL \<notin> set l \<Longrightarrow> parse_template n (l @ t) = then_items (map TLit l) (parse_template n t)"
proof (induction l)
  case Nil
  then show ?case by (simp add: then_items_Nil)
next
  case (Cons c l)
  then have c: "c \<noteq> BSL" and l: "BSL \<notin> set l"
    by auto
  have "parse_template n ((c # l) @ t) = then_items [TLit c] (parse_template n (l @ t))"
    using parse_template_plain [OF c] by simp
  with Cons.IH [OF l] show ?case
    by (simp add: then_items_append)
qed

lemma parse_template_escape_char:
  "parse_template n (escape_char c @ t) =
   then_items (map TLit (if c = DQ then [BSL, DQ] else [c])) (parse_template n t)"
  by (simp add: parse_template_bsl_bsl parse_template_bsl_dq parse_template_plain)

lemma parse_template_escape:
  "parse_template n (escape_rust_string s @ t) =
   then_items (map TLit (quote_escaped s)) (parse_template n t)"
proof (induction s)
  case Nil
  then show ?case by (simp add: escape_rust_string_def quote_escaped_def then_items_Nil)
next
  case (Cons c s)
  have "parse_template n (escape_rust_string (c # s) @ t) =
        parse_template n (escape_char c @ (escape_rust_string s @ t))"
    by (simp add: escape_rust_string_def)
  also have "\<dots> = then_items (map TLit (if c = DQ then [BSL, DQ] else [c]))
                      (parse_template n (escape_rust_string s @ t))"
    by (rule parse_template_escape_char)
  finally show ?case
    by (simp add: Cons then_items_append quote_escaped_def)
qed

lemma content_items_stored:
  "concat (map content_items s) = map TLit (stored_content s)"
  by (induction s) (simp_all add: content_items_def stored_content_def)

lemma parse_template_format_content:
  "BSL \<notin> set s \<Longrightarrow>
   parse_template n (format_content s @ t) =
   then_items (map TLit (stored_content s)) (parse_template n t)"
  by (simp add: parse_template_content content_items_stored)

lemma expand_lits [simp]: "expand (map TLit l) g = l"
  by (induction l) (simp_all add: expand_def)

lemma expand_Cons: "expand (x # xs) g = expand_item g x @ expand xs g"
  by (simp add: expand_def)

lemma expand_Nil [simp]: "expand [] g = []"
  by (simp add: expand_def)

lemma join_lines: "join [NL] (x # xs) = x @ concat (map (\<lambda>l. NL # l) xs)"
  by (induction xs arbitrary: x) simp_all

lemma parse_template_block:
  assumes "BSL \<notin> set (content a)"
  shows "parse_template n (concat (map (\<lambda>l. NL # l) (ann_lines a)) @ t) =
         then_items (map TLit (NL # stored_block a)) (parse_template n t)"
proof -
  define l1 where "l1 = [NL] @ ''    VersionAnnouncement {'' @ [NL] @ ''        version: '' @ [DQ]"
  define l2 where "l2 = [DQ] @ '','' @ [NL] @ ''        title: '' @ [DQ]"
  define l3 where "l3 = [DQ] @ '','' @ [NL] @ ''        content: '' @ [DQ]"
  define l4 where "l4 = [DQ] @ '','' @ [NL] @ ''    },''"
  have free: "BSL \<notin> set l1" "BSL \<notin> set l2" "BSL \<notin> set l3" "BSL \<notin> set l4"
    by (simp_all add: l1_def l2_def l3_def l4_def)
  have "concat (map (\<lambda>l. NL # l) (ann_lines a)) @ t =
        l1 @ (escape_rust_string (version a) @ (l2 @ (escape_rust_string (title a) @
          (l3 @ (format_content (content a) @ (l4 @ t))))))"
    by (simp add: ann_lines_def l1_def l2_def l3_def l4_def)
  then have "parse_template n (concat (map (\<lambda>l. NL # l) (ann_lines a)) @ t) =
        then_items (map TLit l1) (then_items (map TLit (quote_escaped (version a)))
          (then_items (map TLit l2) (then_items (map TLit (quote_escaped (title a)))
            (then_items (map TLit l3) (then_items (map TLit (stored_content (content a)))
              (then_items (map TLit l4) (parse_template n t)))))))"
    by (simp only: parse_template_text [OF free(1)] parse_template_text [OF free(2)]
        parse_template_text [OF free(3)] parse_template_text [OF free(4)]
        parse_template_escape parse_template_format_content [OF assms])
  also have "\<dots> = then_items (map TLit (l1 @ quote_escaped (version a) @ l2 @
        quote_escaped (title a) @ l3 @ stored_content (content a) @ l4)) (parse_template n t)"
    by (simp add: then_items_append)
  also have "l1 @ quote_escaped (version a) @ l2 @ quote_escaped (title a) @ l3 @
        stored_content (content a) @ l4 = NL # stored_block a"
    by (simp add: stored_block_def block_text_def l1_def l2_def l3_def l4_def)
  finally show ?thesis .
qed

lemma parse_template_blocks:
  assumes "\<forall>a \<in> set anns. BSL \<notin> set (content a)"
  shows "parse_template n (concat (map (\<lambda>l. NL # l) (concat (map ann_lines anns))) @ t) =
         then_items (map TLit (concat (map (\<lambda>a. NL # stored_block a) anns))) (parse_template n t)"
  using assms
proof (induction anns)
  case Nil
  then show ?case by (simp add: then_items_Nil)
next
  case (Cons a anns)
  have "parse_template n (concat (map (\<lambda>l. NL # l) (concat (map ann_lines (a # anns)))) @ t) =
        parse_template n (concat (map (\<lambda>l. NL # l) (ann_lines a)) @
          (concat (map (\<lambda>l. NL # l) (concat (map ann_lines anns))) @ t))"
    by simp
  also have "\<dots> = then_items (map TLit (NL # stored_block a))
      (parse_template n (concat (map (\<lambda>l. NL # l) (concat (map ann_lines anns))) @ t))"
    using Cons.prems by (intro parse_template_block) simp
  finally show ?case
    using Cons by (simp add: then_items_append)
qed

lemma parse_replacement_clean:
  assumes "\<forall>a \<in> set anns. BSL \<notin> set (content a)"
  shows "parse_template 3 (replacement (array_lines anns)) =
         Inr (TGroup 1 # map TLit (rendered_body anns) @ [TGroup 3])"
proof -
  have free: "BSL \<notin> set HEADER"
    by (simp add: HEADER_def)
  have last: "parse_template 3 [NL, BSL, CHR ''3''] = Inr [TLit NL, TGroup 3]"
    by (simp add: parse_template.simps(3) is_digit_def digit_val_def add_group_def)
  have "replacement (array_lines anns) =
        BSL # CHR ''1'' # BSL # CHR ''n'' #
        (HEADER @ (concat (map (\<lambda>l. NL # l) (concat (map ann_lines anns))) @ [NL, BSL, CHR ''3'']))"
    by (simp add: replacement_def array_lines_def join_lines)
  then have "parse_template 3 (replacement (array_lines anns)) =
        add_group 3 1 (then_items [TLit NL] (then_items (map TLit HEADER)
          (then_items (map TLit (concat (map (\<lambda>a. NL # stored_block a) anns)))
            (Inr [TLit NL, TGroup 3]))))"
    by (simp only: parse_template_group1_newline parse_template_text [OF free]
        parse_template_blocks [OF assms] last)
  then show ?thesis
    by (simp add: add_group_def rendered_body_def)
qed

lemma re_sub_clean:
  assumes "split_first MARKER doc = Some (lead, rest)" "split_first CLOSER rest = Some (body, post)"
    and "\<forall>a \<in> set anns. BSL \<notin> set (content a)"
  shows "re_sub sub_pattern (replacement (array_lines anns)) doc =
         Inr (lead @ MARKER @ rendered_body anns @ CLOSER @
              sub_all sub_pattern (TGroup 1 # map TLit (rendered_body anns) @ [TGroup 3]) post)"
proof -
  have "expand (TGroup 1 # map TLit (rendered_body anns) @ [TGroup 3])
          [MARKER @ body @ CLOSER, MARKER, body, CLOSER] =
        MARKER @ rendered_body anns @ CLOSER"
    by (simp add: expand_Cons expand_append)
  then show ?thesis
    using sub_all_located [OF assms(1,2)]
    by (simp add: re_sub_def ngroups_sub_pattern parse_replacement_clean [OF assms(3)])
qed

section \<open>The text around the array\<close>



text \<open>
  A document with more than one array block is outside the input contract.  In
  \<open>two_arrays\<close> the text after the first array declares the array again, in a comment, and
  the substitution, which has no count, rewrites that second array too.
\<close>

lemma second_array_rewritten:
  "split_first MARKER two_arrays = Some ([], CLOSER @ '' // '' @ MARKER @ CLOSER) \<and>
   split_first CLOSER (CLOSER @ '' // '' @ MARKER @ CLOSER) = Some ([], '' // '' @ MARKER @ CLOSER) \<and>
   snd (update_announcement two_arrays ''1'' ''t'' ''c'') =
     Inr (MARKER @ [NL] @ HEADER @ [NL] @ block_text ''1'' ''t'' ''c'' @ [NL] @ CLOSER @
          '' // '' @ MARKER @ [NL] @ HEADER @ [NL] @ block_text ''1'' ''t'' ''c'' @ [NL] @ CLOSER) \<and>
   \<not> suffix ('' // '' @ MARKER @ CLOSER)
       (MARKER @ [NL] @ HEADER @ [NL] @ block_text ''1'' ''t'' ''c'' @ [NL] @ CLOSER @
        '' // '' @ MARKER @ [NL] @ HEADER @ [NL] @ block_text ''1'' ''t'' ''c'' @ [NL] @ CLOSER)"
  by code_simp

section \<open>Updating one announcement\<close>

lemma length_ann_lines [simp]: "length (ann_lines a) = 5"
  by (simp add: ann_lines_def)

lemma ann_lines_at:
  "j < length xs \<Longrightarrow> take 5 (drop (1 + 5 * j) (array_lines xs)) = ann_lines (xs ! j)"
proof (induction xs arbitrary: j)
  case Nil
  then show ?case by simp
next
  case (Cons x xs)
  show ?case
  proof (cases j)
    case 0
    then show ?thesis by (simp add: array_lines_def)
  next
    case (Suc k)
    with Cons.prems have k: "k < length xs" by simp
    have n: "1 + 5 * j = Suc (5 + 5 * k)"
      by (simp add: Suc)
    have "drop (1 + 5 * j) (array_lines (x # xs)) =
          drop (5 + 5 * k) (ann_lines x @ concat (map ann_lines xs))"
      unfolding n array_lines_def by (simp only: drop_Suc_Cons list.map concat.simps)
    also have "\<dots> = drop (5 * k) (concat (map ann_lines xs))"
      by (simp add: drop_append)
    finally have "drop (1 + 5 * j) (array_lines (x # xs)) = drop (5 * k) (concat (map ann_lines xs))" .
    also have "\<dots> = drop (1 + 5 * k) (array_lines xs)"
      by (simp add: array_lines_def)
    finally show ?thesis
      using Cons.IH [OF k] by (simp add: Suc)
  qed
qed

lemma upsert_found:
  assumes "i < length anns" "version (anns ! i) = v" "\<forall>j<i. version (anns ! j) \<noteq> v"
  shows "upsert anns v t c = (updated anns i t c, Updating_existing v)"
proof -
  from assms have "find_existing anns v = Some i"
    by (simp add: find_existing_Some)
  then show ?thesis
    by (simp add: upsert_def updated_def)
qed




section \<open>Matching one rendered block\<close>

text \<open>
  Greedy stars followed by a literal: white space up to a character that is no white
  space, and the characters of a quoted field up to its closing quote.
\<close>

lemma option_case_same: "(case x of None \<Rightarrow> None | Some r \<Rightarrow> Some r) = x"
  by (cases x) simp_all

lemma first_match_spaces:
  assumes "\<not> is_space c"
  shows "first_match (Star Space # One (Ch c) # ps) st s =
         (case dropWhile is_space s of
            [] \<Rightarrow> None
          | d # rest \<Rightarrow>
              if d = c then first_match ps (pushes (takeWhile is_space s @ [c]) st) rest else None)"
proof (induction s arbitrary: st)
  case Nil
  then show ?case by simp
next
  case (Cons x xs)
  show ?case
  proof (cases "is_space x")
    case True
    with assms have "x \<noteq> c" by auto
    then have n: "first_match (One (Ch c) # ps) st (x # xs) = None"
      by simp
    have step: "first_match (Star Space # One (Ch c) # ps) st (x # xs) =
               first_match (Star Space # One (Ch c) # ps) (push x st) xs"
      unfolding first_match_Star_Cons n using True by (simp add: option_case_same)
    have e: "pushes (takeWhile is_space (x # xs) @ [c]) st =
             pushes (takeWhile is_space xs @ [c]) (push x st)"
      using True by (simp add: pushes_Cons)
    have d: "dropWhile is_space (x # xs) = dropWhile is_space xs"
      using True by simp
    show ?thesis
      unfolding step e d by (rule Cons.IH)
  next
    case False
    with assms show ?thesis
      by (auto simp add: first_match_Star_Cons pushes_Cons)
  qed
qed

lemma first_match_until_quote:
  "first_match (Star (NotCh DQ) # Close # One (Ch DQ) # ps) (caps, Some w) s =
   (case dropWhile (\<lambda>x. x \<noteq> DQ) s of
      [] \<Rightarrow> None
    | d # rest \<Rightarrow> first_match ps (caps @ [w @ takeWhile (\<lambda>x. x \<noteq> DQ) s], None) rest)"
proof (induction s arbitrary: w)
  case Nil
  then show ?case by simp
next
  case (Cons x xs)
  show ?case
  proof (cases "x = DQ")
    case True
    then show ?thesis
      by (simp add: first_match_Star_Cons)
  next
    case False
    then have n: "first_match (Close # One (Ch DQ) # ps) (caps, Some w) (x # xs) = None"
      by simp
    have step: "first_match (Star (NotCh DQ) # Close # One (Ch DQ) # ps) (caps, Some w) (x # xs) =
               first_match (Star (NotCh DQ) # Close # One (Ch DQ) # ps) (caps, Some (w @ [x])) xs"
      unfolding first_match_Star_Cons n using False by (simp add: option_case_same)
    have e: "w @ takeWhile (\<lambda>x. x \<noteq> DQ) (x # xs) = (w @ [x]) @ takeWhile (\<lambda>x. x \<noteq> DQ) xs"
      using False by simp
    have d: "dropWhile (\<lambda>x. x \<noteq> DQ) (x # xs) = dropWhile (\<lambda>x. x \<noteq> DQ) xs"
      using False by simp
    show ?thesis
      unfolding step e d by (rule Cons.IH)
  qed
qed

lemma first_match_captured:
  assumes "f \<noteq> []" "DQ \<notin> set f"
  shows "first_match (Open # Plus (NotCh DQ) # Close # One (Ch DQ) # ps) (caps, cur) (f @ DQ # rest) =
         first_match ps (caps @ [f], None) rest"
proof -
  from assms(1) obtain x f' where f: "f = x # f'"
    by (cases f) auto
  with assms(2) have x: "x \<noteq> DQ" and f': "DQ \<notin> set f'"
    by auto
  have t: "takeWhile (\<lambda>x. x \<noteq> DQ) (f' @ DQ # rest) = f'"
    using f' by (induction f') auto
  have d: "dropWhile (\<lambda>x. x \<noteq> DQ) (f' @ DQ # rest) = DQ # rest"
    using f' by (induction f') auto
  have "first_match (Open # Plus (NotCh DQ) # Close # One (Ch DQ) # ps) (caps, cur) (f @ DQ # rest) =
        first_match (Star (NotCh DQ) # Close # One (Ch DQ) # ps) (caps, Some [x]) (f' @ DQ # rest)"
    using x by (simp add: f)
  also have "\<dots> = first_match ps (caps @ [[x] @ f'], None) rest"
    by (simp only: first_match_until_quote t d list.case)
  finally show ?thesis
    by (simp add: f)
qed

lemma first_match_star_skip:
  assumes "b \<notin> set u" "first_match qs (pushes u st) (c # s) = Some r"
    and "c = b \<or> (\<forall>st'. first_match (Star (NotCh b) # qs) st' s = None)"
  shows "first_match (Star (NotCh b) # qs) st (u @ c # s) = Some r"
  using assms(1,2)
proof (induction u arbitrary: st)
  case Nil
  then have base: "first_match qs st (c # s) = Some r"
    by simp
  have "(if atom_ok (NotCh b) c then first_match (Star (NotCh b) # qs) (push c st) s else None) = None"
    using assms(3) by (cases "push c st") auto
  with base show ?case
    by (simp only: append_Nil first_match_Star_Cons option.case)
next
  case (Cons x u)
  then have "first_match (Star (NotCh b) # qs) (push x st) (u @ c # s) = Some r"
    by (simp add: pushes_Cons)
  moreover from Cons.prems(1) have "atom_ok (NotCh b) x"
    by auto
  ultimately show ?case
    by (simp only: append_Cons first_match_Star_Cons if_True option.case)
qed

lemma first_match_star_close:
  "b \<notin> set u \<Longrightarrow>
   first_match [Star (NotCh b), One (Ch b)] (caps, None) (u @ b # rest) = Some (caps, rest)"
proof (induction u)
  case Nil
  then show ?case by (simp add: first_match_Star_Cons)
next
  case (Cons x u)
  then have "first_match [Star (NotCh b), One (Ch b)] (caps, None) (u @ b # rest) = Some (caps, rest)"
    and "atom_ok (NotCh b) x"
    by auto
  then show ?case
    by (simp only: append_Cons first_match_Star_Cons if_True option.case push.simps option.map)
qed

section \<open>Every match consumes input\<close>

text \<open>
  The three patterns begin with a literal character, so that a match leaves strictly less
  input than it was given: the length test of \<open>re_finditer\<close> and \<open>sub_all\<close> never fails
  for them.
\<close>

lemma rx_match_length:
  "(caps, rest) \<in> set (rx_match ps st s) \<Longrightarrow> length rest \<le> length s"
proof (induction ps st s arbitrary: caps rest rule: rx_match.induct)
  case (7 a ps st c cs)
  then show ?case
    by (fastforce split: if_splits)
next
  case (11 a ps st c cs)
  then show ?case
    by (fastforce split: if_splits)
qed (fastforce split: if_splits)+

lemma rx_match_One_shorter:
  "(caps, rest) \<in> set (rx_match (One a # ps) st s) \<Longrightarrow> length rest < length s"
  by (cases s) (auto split: if_splits dest: rx_match_length)

lemma match_here_shorter:
  assumes "match_here (lit (c # l) @ ps) s = Some (groups, rest)"
  shows "length rest < length s"
proof -
  from assms obtain caps tl where "rx_match (One (Ch c) # lit l @ ps) ([], None) s = (caps, rest) # tl"
    by (auto simp: match_here_def lit_def split: list.splits)
  then have "(caps, rest) \<in> set (rx_match (One (Ch c) # lit l @ ps) ([], None) s)"
    by simp
  then show ?thesis
    by (rule rx_match_One_shorter)
qed

lemma re_search_shorter:
  "re_search (lit (c # l) @ ps) s = Some (lead, groups, rest) \<Longrightarrow> length rest < length s"
proof (induction s arbitrary: lead)
  case Nil
  then show ?case
    by (auto split: option.splits dest: match_here_shorter)
next
  case (Cons x xs)
  show ?case
  proof (cases "match_here (lit (c # l) @ ps) (x # xs)")
    case None
    with Cons.prems obtain lead' where "re_search (lit (c # l) @ ps) xs = Some (lead', groups, rest)"
      by (auto split: option.splits)
    then have "length rest < length xs"
      by (rule Cons.IH)
    then show ?thesis by simp
  next
    case (Some r)
    with Cons.prems have "match_here (lit (c # l) @ ps) (x # xs) = Some (groups, rest)"
      by (auto split: option.splits)
    then show ?thesis
      by (rule match_here_shorter)
  qed
qed

lemma array_match_shorter:
  "re_search array_pattern s = Some (lead, groups, rest) \<Longrightarrow> length rest < length s"
  unfolding array_pattern_def MARKER_def by (rule re_search_shorter)

lemma ann_match_shorter:
  "re_search ann_pattern s = Some (lead, groups, rest) \<Longrightarrow> length rest < length s"
  unfolding ann_pattern_def append_assoc by (rule re_search_shorter)

lemma re_finditer_ann:
  "re_finditer ann_pattern s =
     (case re_search ann_pattern s of
        None \<Rightarrow> []
      | Some (lead, groups, rest) \<Rightarrow> groups # re_finditer ann_pattern rest)"
  by (subst re_finditer.simps) (auto split: option.splits dest: ann_match_shorter)

lemma sub_match_shorter:
  "re_search sub_pattern s = Some (lead, groups, rest) \<Longrightarrow> length rest < length s"
proof (induction s arbitrary: lead)
  case Nil
  then show ?case
    by (simp add: sub_pattern_def MARKER_def lit_def match_here_def)
next
  case (Cons x xs)
  have here: "length r < length u" if "match_here sub_pattern u = Some (g, r)" for u g r
  proof -
    from that obtain caps more where
      "rx_match (One (Ch (hd MARKER)) # lit (tl MARKER) @ [Close] @ [Open, Lazy AnyCh, Close] @
                 [Open] @ lit CLOSER @ [Close]) ([], Some []) u = (caps, r) # more"
      by (auto simp: match_here_def sub_pattern_def MARKER_def lit_def split: list.splits)
    then have "(caps, r) \<in> set (rx_match (One (Ch (hd MARKER)) # lit (tl MARKER) @ [Close] @
                 [Open, Lazy AnyCh, Close] @ [Open] @ lit CLOSER @ [Close]) ([], Some []) u)"
      by simp
    then show ?thesis
      by (rule rx_match_One_shorter)
  qed
  show ?case
  proof (cases "match_here sub_pattern (x # xs)")
    case None
    with Cons.prems obtain lead' where "re_search sub_pattern xs = Some (lead', groups, rest)"
      by (auto split: option.splits)
    then have "length rest < length xs"
      by (rule Cons.IH)
    then show ?thesis by simp
  next
    case (Some r)
    with Cons.prems have "match_here sub_pattern (x # xs) = Some (groups, rest)"
      by (auto split: option.splits)
    then show ?thesis
      by (rule here)
  qed
qed

section \<open>Locating the array in a rendered document\<close>

lemma prefix_long:
  "length sep \<le> length y \<Longrightarrow> prefix sep (y @ z) \<longleftrightarrow> prefix sep y"
  by (auto simp: prefix_append)

lemma split_first_tail:
  assumes "sep \<noteq> []"
  shows "split_first sep (a @ sep @ r) = Some (a, r) \<Longrightarrow> split_first sep (a @ sep @ r') = Some (a, r')"
proof (induction a)
  case Nil
  from assms obtain c cs where "sep = c # cs" by (cases sep) auto
  then show ?case by simp
next
  case (Cons x a)
  have p: "prefix sep (x # a @ sep @ z) \<longleftrightarrow> prefix sep (x # a @ sep)" for z
    using prefix_long [of sep "x # a @ sep" z] by simp
  from Cons.prems have n: "\<not> prefix sep (x # a @ sep @ r)"
    by (auto split: if_splits)
  with Cons.prems have "split_first sep (a @ sep @ r) = Some (a, r)"
    by (auto split: if_splits)
  then have "split_first sep (a @ sep @ r') = Some (a, r')"
    by (rule Cons.IH)
  moreover have "\<not> prefix sep (x # a @ sep @ r')"
    using n p by blast
  ultimately show ?case by simp
qed

lemma no_pair_skip: "c \<noteq> CHR '']'' \<Longrightarrow> no_pair (c # s) = no_pair s"
  by (cases s) simp_all

lemma no_pair_Cons: "no_pair (c # s) \<Longrightarrow> no_pair s"
  by (cases s) simp_all

lemma no_pair_field: "no_pair f \<Longrightarrow> no_pair (f @ DQ # s) = no_pair s"
proof (induction f rule: no_pair.induct)
  case 1
  then show ?case by (simp add: no_pair_skip)
next
  case (2 c)
  then show ?case by (simp add: no_pair_skip)
next
  case (3 c d s')
  then show ?case by simp
qed

lemma no_pair_contains: "no_pair s \<longleftrightarrow> \<not> contains CLOSER s"
  by (induction s rule: no_pair.induct) (auto simp: CLOSER_def)

lemma split_first_closer:
  "no_pair (y @ '']'') \<Longrightarrow> split_first CLOSER (y @ CLOSER @ post) = Some (y, post)"
proof (induction y)
  case Nil
  then show ?case by (simp add: CLOSER_def)
next
  case (Cons x y)
  then have "no_pair (y @ '']'')"
    by (auto dest: no_pair_Cons)
  then have "split_first CLOSER (y @ CLOSER @ post) = Some (y, post)"
    by (rule Cons.IH)
  moreover from Cons.prems have "\<not> prefix CLOSER (x # y @ CLOSER @ post)"
    by (cases y) (auto simp: CLOSER_def)
  ultimately show ?case by simp
qed

section \<open>Field names inside field values\<close>

text \<open>
  The greedy \<^verbatim>\<open>[^}]*\<close> before a field name makes \<^verbatim>\<open>re\<close> take the last place where the
  name, white space and a quote begin and the rest of the pattern matches.  When no such
  place follows (\<open>no_later\<close>), the match is at the place in hand.
\<close>

lemma is_space_DQ [simp]: "\<not> is_space DQ"
  by (simp add: is_space_def)

lemma key_quote_None:
  assumes "\<not> key_quote k s"
  shows "first_match (lit k @ Star Space # One (Ch DQ) # ps) st s = None"
proof (cases "prefix k s")
  case False
  then show ?thesis by (simp add: first_match_lit)
next
  case True
  with assms have "\<not> (case dropWhile is_space (drop (length k) s) of [] \<Rightarrow> False | c # _ \<Rightarrow> c = DQ)"
    by (simp add: key_quote_def)
  then have neg: "\<And>d r. dropWhile is_space (drop (length k) s) = d # r \<Longrightarrow> d \<noteq> DQ"
    by auto
  have sp: "first_match (Star Space # One (Ch DQ) # ps) st' t =
       (case dropWhile is_space t of
          [] \<Rightarrow> None
        | d # rest \<Rightarrow>
            if d = DQ then first_match ps (pushes (takeWhile is_space t @ [DQ]) st') rest else None)"
    for st' t
    by (rule first_match_spaces) simp
  have "first_match (Star Space # One (Ch DQ) # ps) (pushes k st) (drop (length k) s) = None"
  proof (cases "dropWhile is_space (drop (length k) s)")
    case Nil
    show ?thesis unfolding sp Nil by simp
  next
    case (Cons d r)
    then have "d \<noteq> DQ" by (rule neg)
    then show ?thesis unfolding sp Cons by simp
  qed
  with True show ?thesis by (simp add: first_match_lit)
qed

lemma no_later_None:
  "no_later b k s \<Longrightarrow>
   first_match (Star (NotCh b) # lit k @ Star Space # One (Ch DQ) # ps) st s = None"
proof (induction s arbitrary: st)
  case Nil
  then show ?case by (simp add: first_match_lit)
next
  case (Cons c cs)
  then have here: "first_match (lit k @ Star Space # One (Ch DQ) # ps) st (c # cs) = None"
    by (simp add: key_quote_None)
  show ?case
  proof (cases "c = b")
    case True
    then show ?thesis
      unfolding first_match_Star_Cons here by simp
  next
    case False
    with Cons.prems have "no_later b k cs" by simp
    then have "first_match (Star (NotCh b) # lit k @ Star Space # One (Ch DQ) # ps) (push c st) cs = None"
      by (rule Cons.IH)
    then show ?thesis
      unfolding first_match_Star_Cons here by simp
  qed
qed

lemma key_quote_field:
  assumes "DQ \<notin> set g" "\<not> key_end k g" "DQ \<notin> set k" "k = k' @ [e]" "\<not> is_space e"
  shows "\<not> key_quote k (g @ DQ # s)"
proof
  assume kq: "key_quote k (g @ DQ # s)"
  then have p: "prefix k (g @ DQ # s)"
    by (simp add: key_quote_def)
  have len: "length k \<le> length g"
  proof (rule ccontr)
    assume "\<not> length k \<le> length g"
    then have lt: "length g < length k" by simp
    from p obtain z where "g @ DQ # s = k @ z"
      by (auto simp: prefix_def)
    then have "(g @ DQ # s) ! length g = (k @ z) ! length g"
      by simp
    with lt have "DQ = k ! length g"
      by (simp add: nth_append)
    with lt assms(3) show False
      by (metis nth_mem)
  qed
  with p have "prefix k g"
    by (simp add: prefix_long)
  then obtain g' where g: "g = k @ g'"
    by (auto simp: prefix_def)
  from kq have kq': "case dropWhile is_space (g' @ DQ # s) of [] \<Rightarrow> False | c # _ \<Rightarrow> c = DQ"
    by (simp add: key_quote_def g)
  have sp: "\<forall>x\<in>set g'. is_space x"
  proof (rule ccontr)
    assume "\<not> (\<forall>x\<in>set g'. is_space x)"
    then obtain x where x: "x \<in> set g'" "\<not> is_space x"
      by auto
    then have app: "dropWhile is_space (g' @ DQ # s) = dropWhile is_space g' @ DQ # s"
      by (simp add: dropWhile_append1)
    from x have "dropWhile is_space g' \<noteq> []"
      by auto
    then obtain d r where d: "dropWhile is_space g' = d # r"
      by (cases "dropWhile is_space g'") auto
    then have "d \<in> set g'"
      by (metis list.set_intros(1) set_dropWhileD)
    with assms(1) g have "d \<noteq> DQ"
      by auto
    with kq' show False
      unfolding app d by simp
  qed
  have "dropWhile is_space (rev g' @ e # rev k') = dropWhile is_space (e # rev k')"
    by (rule dropWhile_append2) (use sp in auto)
  with assms(5) have "dropWhile is_space (rev g) = rev k"
    by (simp add: g assms(4))
  then have "key_end k g"
    by (simp add: key_end_def)
  with assms(2) show False by simp
qed

lemma key_end_Cons:
  assumes "k \<noteq> []" "key_end k f"
  shows "key_end k (x # f)"
proof -
  from assms(2) have p: "prefix (rev k) (dropWhile is_space (rev f))"
    by (simp add: key_end_def)
  with assms(1) have "dropWhile is_space (rev f) \<noteq> []"
    by (cases "dropWhile is_space (rev f)") simp_all
  then obtain y where "y \<in> set (rev f)" "\<not> is_space y"
    by (auto simp del: set_rev)
  then have "dropWhile is_space (rev f @ [x]) = dropWhile is_space (rev f) @ [x]"
    by simp
  with p show ?thesis
    by (simp add: key_end_def)
qed

lemma no_later_field:
  assumes "DQ \<notin> set k" "k = k' @ [e]" "\<not> is_space e"
  shows "DQ \<notin> set f \<Longrightarrow> \<not> key_end k f \<Longrightarrow> no_later b k (DQ # s) \<Longrightarrow>
         no_later b k (f @ DQ # s)"
proof (induction f)
  case Nil
  then show ?case by simp
next
  case (Cons x f)
  from Cons.prems(1,2) assms have "\<not> key_quote k ((x # f) @ DQ # s)"
    by (rule key_quote_field)
  moreover have "no_later b k (f @ DQ # s)"
  proof (rule Cons.IH)
    from Cons.prems(1) show "DQ \<notin> set f" by simp
    from assms(2) have "k \<noteq> []" by simp
    with Cons.prems(2) show "\<not> key_end k f" by (auto dest: key_end_Cons)
    from Cons.prems(3) show "no_later b k (DQ # s)" .
  qed
  ultimately show ?case by simp
qed

lemma no_later_name:
  assumes "k = ''version:'' \<or> k = ''title:'' \<or> k = ''content:''"
    and "DQ \<notin> set f" "\<not> ends_in_name f" "no_later b k (DQ # s)"
  shows "no_later b k (f @ DQ # s)"
proof -
  from assms(1) obtain k' where "k = k' @ [CHR '':'']"
    by auto
  moreover from assms(1) have "DQ \<notin> set k"
    by auto
  moreover have "\<not> is_space (CHR '':'')"
    by (simp add: is_space_def)
  moreover from assms(1,3) have "\<not> key_end k f"
    by (auto simp: ends_in_name_def)
  ultimately show ?thesis
    using assms(2,4) by (metis no_later_field)
qed

lemma field_match:
  assumes k: "DQ \<notin> set k" "k = c # k'"
    and u: "CHR ''}'' \<notin> set u"
    and f: "f \<noteq> []" "DQ \<notin> set f"
    and later: "c = CHR ''}'' \<or> no_later (CHR ''}'') k (k' @ CHR '' '' # DQ # f @ DQ # rest)"
    and tail: "first_match ps (caps @ [f], None) rest = Some r"
  shows "first_match (field_pattern k @ ps) (caps, None) (u @ k @ CHR '' '' # DQ # f @ DQ # rest) = Some r"
proof -
  let ?qs = "lit k @ Star Space # One (Ch DQ) # Open # Plus (NotCh DQ) # Close # One (Ch DQ) # ps"
  have sp: "first_match (Star Space # One (Ch DQ) # qs) st t =
       (case dropWhile is_space t of
          [] \<Rightarrow> None
        | d # rest \<Rightarrow>
            if d = DQ then first_match qs (pushes (takeWhile is_space t @ [DQ]) st) rest else None)"
    for st t qs
    by (rule first_match_spaces) simp
  have sp1: "first_match (Star Space # One (Ch DQ) # qs) (caps, None) (CHR '' '' # DQ # t) =
             first_match qs (caps, None) t" for qs t
    unfolding sp by (simp add: is_space_def)
  have cap: "first_match (Open # Plus (NotCh DQ) # Close # One (Ch DQ) # ps) (caps, None)
               (f @ DQ # rest) = Some r"
    using first_match_captured [OF f] tail by simp
  have here: "first_match ?qs (caps, None) (k @ CHR '' '' # DQ # f @ DQ # rest) = Some r"
    unfolding first_match_lit using cap
    by (simp add: sp1 del: first_match_Open)
  have pat: "field_pattern k @ ps = Star (NotCh (CHR ''}'')) # ?qs"
    by (simp add: field_pattern_def lit_def)
  have "first_match (Star (NotCh (CHR ''}'')) # ?qs) (caps, None)
          (u @ c # k' @ CHR '' '' # DQ # f @ DQ # rest) = Some r"
  proof (rule first_match_star_skip [OF u])
    show "first_match ?qs (pushes u (caps, None)) (c # k' @ CHR '' '' # DQ # f @ DQ # rest) = Some r"
      using here by (simp add: k(2))
    show "c = CHR ''}'' \<or>
          (\<forall>st'. first_match (Star (NotCh (CHR ''}'')) # ?qs) st'
                   (k' @ CHR '' '' # DQ # f @ DQ # rest) = None)"
      using later by (auto simp: no_later_None)
  qed
  then show ?thesis
    unfolding pat by (simp add: k(2))
qed

lemma first_match_lit_same: "first_match (lit l @ ps) st (l @ s) = first_match ps (pushes l st) s"
  by (simp add: first_match_lit)

lemma block_match:
  assumes V: "V \<noteq> []" "DQ \<notin> set V" "\<not> ends_in_name V"
    and T: "T \<noteq> []" "DQ \<notin> set T" "\<not> ends_in_name T"
    and C: "C \<noteq> []" "DQ \<notin> set C" "\<not> ends_in_name C"
  shows "first_match ann_pattern ([], None)
           (''VersionAnnouncement {'' @
            (NL # ''        '') @ ''version:'' @ CHR '' '' # DQ # V @ DQ #
            ('','' @ NL # ''        '') @ ''title:'' @ CHR '' '' # DQ # T @ DQ #
            ('','' @ NL # ''        '') @ ''content:'' @ CHR '' '' # DQ # C @ DQ #
            ('','' @ NL # ''    '') @ CHR ''}'' # rest) =
         Some ([V, T, C], rest)"
proof -
  let ?b = "CHR ''}''"
  let ?end = "[Star (NotCh ?b), One (Ch ?b)]"
  let ?r3 = "('','' @ NL # ''    '') @ ?b # rest"
  let ?r2 = "('','' @ NL # ''        '') @ ''content:'' @ CHR '' '' # DQ # C @ DQ # ?r3"
  let ?r1 = "('','' @ NL # ''        '') @ ''title:'' @ CHR '' '' # DQ # T @ DQ # ?r2"
  have m4: "first_match ?end ([V, T, C], None) ?r3 = Some ([V, T, C], rest)"
    by (rule first_match_star_close) simp
  have c1: "no_later ?b ''content:'' (DQ # ?r3)"
    by (simp add: key_quote_def)
  have c2: "no_later ?b ''content:'' (C @ DQ # ?r3)"
    by (rule no_later_name [OF _ C(2,3) c1]) simp
  have c3: "no_later ?b ''content:'' (''ontent:'' @ CHR '' '' # DQ # C @ DQ # ?r3)"
    using c2 by (simp add: key_quote_def)
  have m3: "first_match (field_pattern ''content:'' @ ?end) ([V, T], None) ?r2 =
            Some ([V, T, C], rest)"
    by (rule field_match [where k' = "''ontent:''" and c = "CHR ''c''"])
       (use C c3 m4 in simp_all)
  have t1: "no_later ?b ''title:'' (DQ # ?r3)"
    by (simp add: key_quote_def)
  have t2: "no_later ?b ''title:'' (C @ DQ # ?r3)"
    by (rule no_later_name [OF _ C(2,3) t1]) simp
  have t3: "no_later ?b ''title:'' (DQ # ?r2)"
    using t2 by (simp add: key_quote_def)
  have t4: "no_later ?b ''title:'' (T @ DQ # ?r2)"
    by (rule no_later_name [OF _ T(2,3) t3]) simp
  have t5: "no_later ?b ''title:'' (''itle:'' @ CHR '' '' # DQ # T @ DQ # ?r2)"
    using t4 by (simp add: key_quote_def)
  have m2: "first_match (field_pattern ''title:'' @ field_pattern ''content:'' @ ?end)
              ([V], None) ?r1 = Some ([V, T, C], rest)"
    by (rule field_match [where k' = "''itle:''" and c = "CHR ''t''"])
       (use T t5 m3 in simp_all)
  have v1: "no_later ?b ''version:'' (DQ # ?r3)"
    by (simp add: key_quote_def)
  have v2: "no_later ?b ''version:'' (C @ DQ # ?r3)"
    by (rule no_later_name [OF _ C(2,3) v1]) simp
  have v3: "no_later ?b ''version:'' (DQ # ?r2)"
    using v2 by (simp add: key_quote_def)
  have v4: "no_later ?b ''version:'' (T @ DQ # ?r2)"
    by (rule no_later_name [OF _ T(2,3) v3]) simp
  have v5: "no_later ?b ''version:'' (DQ # ?r1)"
    using v4 by (simp add: key_quote_def)
  have v6: "no_later ?b ''version:'' (V @ DQ # ?r1)"
    by (rule no_later_name [OF _ V(2,3) v5]) simp
  have v7: "no_later ?b ''version:'' (''ersion:'' @ CHR '' '' # DQ # V @ DQ # ?r1)"
    using v6 by (simp add: key_quote_def)
  have m1: "first_match
              (field_pattern ''version:'' @ field_pattern ''title:'' @ field_pattern ''content:'' @ ?end)
              ([], None) ((NL # ''        '') @ ''version:'' @ CHR '' '' # DQ # V @ DQ # ?r1) =
            Some ([V, T, C], rest)"
    by (rule field_match [where k' = "''ersion:''" and c = "CHR ''v''"])
       (use V v7 m2 in simp_all)
  have sp: "first_match (Star Space # One (Ch (CHR ''{'')) # qs) ([], None) (CHR '' '' # CHR ''{'' # t) =
            first_match qs ([], None) t" for qs t
    by (subst first_match_spaces) (simp_all add: is_space_def)
  have pat: "ann_pattern =
      lit ''VersionAnnouncement'' @ Star Space # One (Ch (CHR ''{'')) #
      field_pattern ''version:'' @ field_pattern ''title:'' @ field_pattern ''content:'' @ ?end"
    by (simp add: ann_pattern_def lit_def)
  have "first_match ann_pattern ([], None)
          (''VersionAnnouncement'' @ CHR '' '' # CHR ''{'' #
           (NL # ''        '') @ ''version:'' @ CHR '' '' # DQ # V @ DQ # ?r1) =
        Some ([V, T, C], rest)"
    unfolding pat first_match_lit_same pushes.simps option.map sp by (rule m1)
  then show ?thesis
    by simp
qed

section \<open>Parsing the rendered array\<close>

lemma unescape_free: "BSL \<notin> set s \<Longrightarrow> unescape s = s"
  by (induction s) (auto simp: unescape_plain)

lemma unescape_stored_content: "BSL \<notin> set s \<Longrightarrow> unescape (stored_content s) = s"
  using unescape_expand_content [of s "[]" "[]"]
  by (simp add: content_items_stored)

lemma quote_escaped_free: "DQ \<notin> set s \<Longrightarrow> quote_escaped s = s"
  by (induction s) (auto simp: quote_escaped_def)

lemma stored_content_Cons:
  "stored_content (c # s) =
     (if c = NL then [BSL, CHR ''n''] else if c = DQ then [BSL, DQ] else [c]) @ stored_content s"
  by (simp add: stored_content_def)

lemma stored_content_snoc:
  "stored_content (s @ [c]) =
     stored_content s @ (if c = NL then [BSL, CHR ''n''] else if c = DQ then [BSL, DQ] else [c])"
  by (simp add: stored_content_def)

lemma stored_content_nonempty: "s \<noteq> [] \<Longrightarrow> stored_content s \<noteq> []"
  by (cases s) (simp_all add: stored_content_Cons)

lemma stored_content_quote_free: "DQ \<notin> set s \<Longrightarrow> DQ \<notin> set (stored_content s)"
  by (induction s) (auto simp: stored_content_Cons stored_content_def)

lemma suffix_stored_content:
  "BSL \<notin> set k \<Longrightarrow> DQ \<notin> set k \<Longrightarrow> k = [] \<or> hd k \<noteq> CHR ''n'' \<Longrightarrow>
   suffix k (stored_content s) \<Longrightarrow> suffix k s"
proof (induction s arbitrary: k rule: rev_induct)
  case Nil
  then show ?case by (simp add: stored_content_def)
next
  case (snoc x s)
  show ?case
  proof (cases k rule: rev_cases)
    case Nil
    then show ?thesis by simp
  next
    case (snoc k' y)
    with snoc.prems have k': "BSL \<notin> set k'" "DQ \<notin> set k'" and y: "y \<noteq> BSL" "y \<noteq> DQ"
      by auto
    from snoc snoc.prems(3) have hd: "k' = [] \<or> hd k' \<noteq> CHR ''n''"
      by (cases k') auto
    show ?thesis
    proof (cases "x = NL \<or> x = DQ")
      case True
      with snoc.prems(4) have "suffix (k' @ [y]) ((stored_content s @ [BSL]) @ [if x = NL then CHR ''n'' else DQ])"
        by (auto simp: snoc stored_content_snoc)
      then have "y = (if x = NL then CHR ''n'' else DQ)" and "suffix k' (stored_content s @ [BSL])"
        by (simp_all only: suffix_snoc) auto
      with k' y True have "k' = []" "y = CHR ''n''"
        by (auto simp: suffix_snoc split: if_splits)
      with snoc snoc.prems(3) show ?thesis
        by simp
    next
      case False
      with snoc.prems(4) have "suffix (k' @ [y]) (stored_content s @ [x])"
        by (simp add: snoc stored_content_snoc)
      then have "y = x" and "suffix k' (stored_content s)"
        by simp_all
      with snoc.IH [OF k' hd] show ?thesis
        by (simp add: snoc)
    qed
  qed
qed

lemma key_end_snoc:
  "key_end k (s @ [x]) = (if is_space x then key_end k s else suffix k (s @ [x]))"
  by (simp add: key_end_def suffix_to_prefix)

lemma key_end_stored_content:
  assumes "BSL \<notin> set k" "DQ \<notin> set k" "k \<noteq> []" "hd k \<noteq> CHR ''n''" "\<not> is_space (last k)"
  shows "key_end k (stored_content s) \<Longrightarrow> key_end k s"
proof (induction s rule: rev_induct)
  case Nil
  then show ?case by (simp add: stored_content_def)
next
  case (snoc x s)
  have unstored: "suffix k (s @ [x])" if "suffix k (stored_content (s @ [x]))"
    by (rule suffix_stored_content [OF assms(1,2) _ that]) (simp add: assms(4))
  show ?case
  proof (cases "is_space x \<and> x \<noteq> NL")
    case True
    then have "x \<noteq> DQ" by auto
    with True snoc.prems have "key_end k (stored_content s)"
      by (simp add: stored_content_snoc key_end_snoc)
    then have "key_end k s"
      by (rule snoc.IH)
    with True show ?thesis
      by (simp add: key_end_snoc)
  next
    case False
    have two: "key_end k (w @ [a, c]) = suffix k (w @ [a, c])" if "\<not> is_space c" for w a c
      using key_end_snoc [of k "w @ [a]" c] that by simp
    have "\<not> is_space (CHR ''n'')"
      by (simp add: is_space_def)
    with False snoc.prems have "suffix k (stored_content (s @ [x]))"
      by (auto simp: stored_content_snoc key_end_snoc two split: if_splits)
    then have suf: "suffix k (s @ [x])"
      by (rule unstored)
    with assms(3) have "last k = x"
      by (metis last_appendR last_snoc suffix_def)
    with assms(5) have "\<not> is_space x"
      by simp
    with suf show ?thesis
      by (simp add: key_end_snoc)
  qed
qed

lemma ends_in_name_stored_content: "ends_in_name (stored_content s) \<Longrightarrow> ends_in_name s"
proof -
  have "key_end k (stored_content s) \<Longrightarrow> key_end k s"
    if "k = ''version:'' \<or> k = ''title:'' \<or> k = ''content:''" for k
  proof -
    from that have "BSL \<notin> set k" "DQ \<notin> set k" "k \<noteq> []" "hd k \<noteq> CHR ''n''"
      "\<not> is_space (last k)"
      by (auto simp: is_space_def)
    then show "key_end k (stored_content s) \<Longrightarrow> key_end k s"
      by (rule key_end_stored_content)
  qed
  then show "ends_in_name (stored_content s) \<Longrightarrow> ends_in_name s"
    unfolding ends_in_name_def by blast
qed

lemma no_pair_hd:
  "no_pair (x # s) \<longleftrightarrow> \<not> (x = CHR '']'' \<and> prefix '';'' s) \<and> no_pair s"
  by (cases s) auto

lemma no_pair_stored_content: "no_pair s \<Longrightarrow> no_pair (stored_content s)"
proof (induction s)
  case Nil
  then show ?case by (simp add: stored_content_def)
next
  case (Cons x s)
  then have IH: "no_pair (stored_content s)"
    by (auto dest: no_pair_Cons)
  have p: "prefix '';'' (stored_content s) \<longleftrightarrow> prefix '';'' s"
    by (cases s) (simp_all add: stored_content_Cons stored_content_def)
  from Cons.prems have "\<not> (x = CHR '']'' \<and> prefix '';'' s)"
    by (simp add: no_pair_hd)
  with IH p show ?case
    by (simp add: stored_content_Cons no_pair_hd)
qed

lemma re_search_skip:
  assumes "c \<notin> set u"
  shows "re_search (lit (c # l) @ ps) (u @ s) =
         map_option (\<lambda>(lead, g, r). (u @ lead, g, r)) (re_search (lit (c # l) @ ps) s)"
  using assms
proof (induction u)
  case Nil
  then show ?case by (simp add: option.map_ident case_prod_unfold)
next
  case (Cons x u)
  then have "match_here (lit (c # l) @ ps) (x # u @ s) = None"
    by (auto simp: match_here_first first_match_lit)
  moreover from Cons have "re_search (lit (c # l) @ ps) (u @ s) =
         map_option (\<lambda>(lead, g, r). (u @ lead, g, r)) (re_search (lit (c # l) @ ps) s)"
    by simp
  ultimately show ?case
    by (auto split: option.splits)
qed

lemma re_search_here:
  "match_here ps s = Some (g, r) \<Longrightarrow> re_search ps s = Some ([], g, r)"
  by (cases s) simp_all

lemma re_search_ann_skip:
  "CHR ''V'' \<notin> set u \<Longrightarrow>
   re_search ann_pattern (u @ s) =
   map_option (\<lambda>(lead, g, r). (u @ lead, g, r)) (re_search ann_pattern s)"
  unfolding ann_pattern_def append_assoc by (rule re_search_skip)

lemma re_search_ann_absent: "CHR ''V'' \<notin> set s \<Longrightarrow> re_search ann_pattern s = None"
proof -
  assume a: "CHR ''V'' \<notin> set s"
  have "\<not> sublist ''VersionAnnouncement'' s"
  proof
    assume "sublist ''VersionAnnouncement'' s"
    then have "set ''VersionAnnouncement'' \<subseteq> set s"
      by (rule set_mono_sublist)
    with a show False by simp
  qed
  then show ?thesis
    unfolding ann_pattern_def append_assoc by (rule re_search_lit_absent) simp
qed

lemma clean_fieldD:
  assumes "clean_field f"
  shows "f \<noteq> []" "DQ \<notin> set f" "BSL \<notin> set f" "no_pair f" "\<not> ends_in_name f"
  using assms by (simp_all add: clean_field_def no_pair_contains)

lemma stored_block_clean:
  assumes "clean_ann a"
  shows "stored_block a = block_text (version a) (title a) (stored_content (content a))"
  using assms by (simp add: stored_block_def clean_ann_def clean_fieldD quote_escaped_free)

lemma parse_blocks:
  assumes "\<forall>a \<in> set rs. clean_ann a" "CHR ''V'' \<notin> set pre"
  shows "map announcement_of
           (re_finditer ann_pattern (pre @ concat (map (\<lambda>a. NL # stored_block a) rs) @ [NL])) = rs"
  using assms
proof (induction rs arbitrary: pre)
  case Nil
  then have "re_search ann_pattern (pre @ [NL]) = None"
    by (simp add: re_search_ann_absent)
  then show ?case
    by (simp add: re_finditer_ann)
next
  case (Cons a rs)
  let ?V = "version a" and ?T = "title a" and ?C = "stored_content (content a)"
  let ?rest = "'','' @ concat (map (\<lambda>a. NL # stored_block a) rs) @ [NL]"
  let ?s = "''VersionAnnouncement {'' @
            (NL # ''        '') @ ''version:'' @ CHR '' '' # DQ # ?V @ DQ #
            ('','' @ NL # ''        '') @ ''title:'' @ CHR '' '' # DQ # ?T @ DQ #
            ('','' @ NL # ''        '') @ ''content:'' @ CHR '' '' # DQ # ?C @ DQ #
            ('','' @ NL # ''    '') @ CHR ''}'' # ?rest"
  let ?u = "pre @ NL # ''    ''"
  from Cons.prems(1) have a: "clean_ann a" and rs: "\<forall>a \<in> set rs. clean_ann a"
    by simp_all
  from a have v: "clean_field ?V" and t: "clean_field ?T" and c: "clean_field (content a)"
    by (simp_all add: clean_ann_def)
  have C: "?C \<noteq> []" "DQ \<notin> set ?C" "\<not> ends_in_name ?C"
    using clean_fieldD [OF c]
    by (auto simp: stored_content_nonempty stored_content_quote_free
        dest: ends_in_name_stored_content)
  have "first_match ann_pattern ([], None) ?s = Some ([?V, ?T, ?C], ?rest)"
    using clean_fieldD(1,2,5) [OF v] clean_fieldD(1,2,5) [OF t] C by (rule block_match)
  then have "match_here ann_pattern ?s =
             Some (take (length ?s - length ?rest) ?s # [?V, ?T, ?C], ?rest)"
    by (simp add: match_here_first)
  then have here: "re_search ann_pattern ?s =
             Some ([], take (length ?s - length ?rest) ?s # [?V, ?T, ?C], ?rest)"
    by (rule re_search_here)
  from Cons.prems(2) have "CHR ''V'' \<notin> set ?u"
    by simp
  then have "re_search ann_pattern (?u @ ?s) =
             map_option (\<lambda>(lead, g, r). (?u @ lead, g, r)) (re_search ann_pattern ?s)"
    by (rule re_search_ann_skip)
  then have found: "re_search ann_pattern (?u @ ?s) =
             Some (?u, take (length ?s - length ?rest) ?s # [?V, ?T, ?C], ?rest)"
    by (simp only: here option.map prod.case append_Nil2)
  have shape: "pre @ concat (map (\<lambda>a. NL # stored_block a) (a # rs)) @ [NL] = ?u @ ?s"
    by (simp add: stored_block_clean [OF a] block_text_def)
  have "map announcement_of (re_finditer ann_pattern ?rest) = rs"
    using rs by (rule Cons.IH) simp
  moreover have "announcement_of (take (length ?s - length ?rest) ?s # [?V, ?T, ?C]) = a"
    using clean_fieldD(3) [OF v] clean_fieldD(3) [OF t] clean_fieldD(3) [OF c]
    by (simp add: announcement_of_def unescape_free unescape_stored_content)
  ultimately show ?case
    unfolding shape by (subst re_finditer_ann) (simp only: found option.case prod.case list.map)
qed

lemma parse_rendered_body:
  assumes "\<forall>a \<in> set rs. clean_ann a"
  shows "map announcement_of (re_finditer ann_pattern (rendered_body rs)) = rs"
proof -
  have "map announcement_of
          (re_finditer ann_pattern ((NL # HEADER) @ concat (map (\<lambda>a. NL # stored_block a) rs) @ [NL])) = rs"
    using assms by (rule parse_blocks) (simp add: HEADER_def)
  then show ?thesis
    by (simp add: rendered_body_def)
qed

lemma no_pair_append_free: "CHR '']'' \<notin> set u \<Longrightarrow> no_pair (u @ s) = no_pair s"
  by (induction u) (auto simp: no_pair_skip)

lemma no_pair_blocks:
  "\<forall>a \<in> set rs. clean_ann a \<Longrightarrow>
   no_pair (concat (map (\<lambda>a. NL # stored_block a) rs) @ NL # '']'')"
proof (induction rs)
  case Nil
  then show ?case by simp
next
  case (Cons a rs)
  then have a: "clean_ann a"
    and IH: "no_pair (concat (map (\<lambda>a. NL # stored_block a) rs) @ NL # '']'')"
    by simp_all
  from a have v: "no_pair (version a)" and t: "no_pair (title a)"
    and c: "no_pair (stored_content (content a))"
    by (simp_all add: clean_ann_def clean_fieldD no_pair_stored_content)
  show ?case
    using IH by (simp add: stored_block_clean [OF a] block_text_def no_pair_skip
        no_pair_field [OF v] no_pair_field [OF t] no_pair_field [OF c])
qed

lemma split_first_rendered_body:
  assumes "\<forall>a \<in> set rs. clean_ann a"
  shows "split_first CLOSER (rendered_body rs @ CLOSER @ post) = Some (rendered_body rs, post)"
proof (rule split_first_closer)
  have "no_pair ((NL # HEADER) @ concat (map (\<lambda>a. NL # stored_block a) rs) @ NL # '']'')"
    using no_pair_blocks [OF assms] by (subst no_pair_append_free) (simp_all add: HEADER_def)
  then show "no_pair (rendered_body rs @ '']'')"
    by (simp add: rendered_body_def)
qed

section \<open>Updating twice\<close>




end
